theory Spec2Isabelle
  imports Complex_Main
begin

section \<open>Strings\<close>

text \<open>
  A Python \<open>str\<close> is a sequence of Unicode code points, and \<open>len\<close>, \<open>split\<close>,
  \<open>strip\<close> and the \<open>re\<close> module all work on code points. A code point is
  modelled as a natural number and a \<open>str\<close> as a list of them.
\<close>

type_synonym pystr = "nat list"

definition lit :: "string \<Rightarrow> pystr" where
  "lit s = map of_char s"

definition SP :: nat where
  "SP = 32"

definition NL :: nat where
  "NL = 10"

text \<open>
  \<open>str.isspace\<close> on one code point, which is the set \<open>str.strip()\<close> and
  \<open>str.split()\<close> use: U+0009..U+000D, U+001C..U+001F, U+0020, U+0085, U+00A0, U+1680,
  U+2000..U+200A, U+2028, U+2029, U+202F, U+205F, U+3000.
\<close>

definition isspace :: "nat \<Rightarrow> bool" where
  "isspace c \<longleftrightarrow>
     (9 \<le> c \<and> c \<le> 13) \<or> (28 \<le> c \<and> c \<le> 32) \<or> c = 133 \<or> c = 160 \<or> c = 5760 \<or>
     (8192 \<le> c \<and> c \<le> 8202) \<or> c = 8232 \<or> c = 8233 \<or> c = 8239 \<or> c = 8287 \<or> c = 12288"

definition lstrip :: "pystr \<Rightarrow> pystr" where
  "lstrip s = dropWhile isspace s"

definition rstrip :: "pystr \<Rightarrow> pystr" where
  "rstrip s = rev (dropWhile isspace (rev s))"

definition strip :: "pystr \<Rightarrow> pystr" where
  "strip s = rstrip (lstrip s)"

text \<open>\<open>s.split('\n')\<close>: the segments between newlines; never an empty list.\<close>

fun split_nl :: "pystr \<Rightarrow> pystr list" where
  "split_nl [] = [[]]"
| "split_nl (c # cs) =
     (if c = NL then [] # split_nl cs
      else (case split_nl cs of l # ls \<Rightarrow> (c # l) # ls | [] \<Rightarrow> [[c]]))"

text \<open>\<open>'\n'.join(lines)\<close>.\<close>

fun join_nl :: "pystr list \<Rightarrow> pystr" where
  "join_nl [] = []"
| "join_nl [l] = l"
| "join_nl (l # m # ls) = l @ NL # join_nl (m # ls)"

text \<open>\<open>s.split()\<close>: the maximal runs of non-whitespace code points.\<close>

function split_ws :: "pystr \<Rightarrow> pystr list" where
  "split_ws s =
     (case dropWhile isspace s of
        [] \<Rightarrow> []
      | c # cs \<Rightarrow> takeWhile (\<lambda>d. \<not> isspace d) (c # cs) # split_ws (dropWhile (\<lambda>d. \<not> isspace d) cs))"
  by pat_completeness auto
termination
proof (relation "measure length")
  show "wf (measure length)" by simp
next
  fix s :: pystr and c cs
  assume h: "dropWhile isspace s = c # cs"
  have "length (dropWhile (\<lambda>d. \<not> isspace d) cs) \<le> length cs"
    by (rule length_dropWhile_le)
  moreover have "length (dropWhile isspace s) \<le> length s"
    by (rule length_dropWhile_le)
  ultimately show "(dropWhile (\<lambda>d. \<not> isspace d) cs, s) \<in> measure length"
    using h by simp
qed

section \<open>Text normalisation: \<open>clean_text\<close>\<close>

text \<open>
  \<open>re.sub(r' +', ' ', text)\<close>: scanning from the left, a maximal run of spaces is
  replaced by one space; any other code point is copied.
\<close>

function sub_spaces :: "pystr \<Rightarrow> pystr" where
  "sub_spaces [] = []"
| "sub_spaces (c # cs) =
     (if c = SP then SP # sub_spaces (dropWhile (\<lambda>d. d = SP) cs)
      else c # sub_spaces cs)"
  by pat_completeness auto
termination
proof (relation "measure length")
  show "wf (measure length)" by simp
next
  fix c :: nat and cs :: pystr
  have "length (dropWhile (\<lambda>d. d = SP) cs) \<le> length cs"
    by (rule length_dropWhile_le)
  then show "(dropWhile (\<lambda>d. d = SP) cs, c # cs) \<in> measure length" by simp
next
  fix c :: nat and cs :: pystr
  show "(cs, c # cs) \<in> measure length" by simp
qed

text \<open>
  \<open>re.sub(r'\n{3,}', '\n\n', text)\<close>: where a run of newlines starts, the greedy
  quantifier takes the whole run; if it has at least three newlines it is replaced
  by two, otherwise the match fails there and the code point is copied.
\<close>

function sub_newlines :: "pystr \<Rightarrow> pystr" where
  "sub_newlines [] = []"
| "sub_newlines (c # cs) =
     (if 3 \<le> length (takeWhile (\<lambda>d. d = NL) (c # cs))
      then NL # NL # sub_newlines (dropWhile (\<lambda>d. d = NL) (c # cs))
      else c # sub_newlines cs)"
  by pat_completeness auto
termination
proof (relation "measure length")
  show "wf (measure length)" by simp
next
  fix c :: nat and cs :: pystr
  assume "3 \<le> length (takeWhile (\<lambda>d. d = NL) (c # cs))"
  then have "c = NL" by (auto split: if_splits)
  moreover have "length (dropWhile (\<lambda>d. d = NL) cs) \<le> length cs"
    by (rule length_dropWhile_le)
  ultimately show "(dropWhile (\<lambda>d. d = NL) (c # cs), c # cs) \<in> measure length" by simp
next
  fix c :: nat and cs :: pystr
  show "(cs, c # cs) \<in> measure length" by simp
qed

definition clean_text :: "pystr \<Rightarrow> pystr" where
  "clean_text text =
     (let text1 = sub_spaces text;
          text2 = sub_newlines text1;
          lines = map strip (split_nl text2);
          text3 = join_nl lines
      in strip text3)"


text \<open>The statistics \<open>ocr_documento_legal\<close> prints for the normalised text.\<close>

record doc_stats =
  st_lines :: nat
  st_words :: nat
  st_chars :: nat

definition text_stats :: "pystr \<Rightarrow> doc_stats" where
  "text_stats text =
     \<lparr>st_lines = length (filter (\<lambda>l. strip l \<noteq> []) (split_nl text)),
      st_words = length (split_ws text),
      st_chars = length text\<rparr>"

section \<open>The outside world\<close>

text \<open>
  A raster as Pillow hands it over: its mode (\<open>'L'\<close>, \<open>'RGB'\<close>, ...), its size and
  its band data.
\<close>

record image =
  img_mode :: pystr
  img_width :: nat
  img_height :: nat
  img_data :: "nat list"

text \<open>
  Everything the pipeline catches is an \<open>Exception\<close>; the handler of the batch loop
  does not look at its class, so an exception is its message.
\<close>

datatype error = Exception pystr

text \<open>
  The lines the script prints. A printed block is one message; elapsed times are not
  modelled.
\<close>

datatype msg =
    MsgProcessing pystr
  | MsgSize nat nat nat
  | MsgPreprocessing
  | MsgPreprocessedSaved pystr
  | MsgExtracting
  | MsgStats nat nat nat
  | MsgSaved pystr
  | MsgNoImages pystr
  | MsgFound nat
  | MsgProgress nat nat pystr
  | MsgRule
  | MsgBlank
  | MsgError error
  | MsgSummary nat
  | MsgUsage
  | MsgNotExists pystr
  | MsgText pystr

text \<open>
  The collaborators the script calls: \<open>pathlib\<close>, the file system, Pillow,
  \<open>pytesseract\<close>, the clock and the standard output. Each call that can raise
  returns a sum: \<open>console\<close> is what \<open>print\<close> does with a line, which raises when
  the stream cannot encode or take it.
\<close>

record world =
  path_name :: "pystr \<Rightarrow> pystr"
  path_stem :: "pystr \<Rightarrow> pystr"
  path_str :: "pystr \<Rightarrow> pystr"
  path_exists :: "pystr \<Rightarrow> bool"
  path_is_dir :: "pystr \<Rightarrow> bool"
  path_glob :: "pystr \<Rightarrow> pystr \<Rightarrow> pystr list"
  stat_size :: "pystr \<Rightarrow> error + nat"
  mkdir :: "pystr \<Rightarrow> error + unit"
  image_open :: "pystr \<Rightarrow> error + image"
  image_convert :: "pystr \<Rightarrow> image \<Rightarrow> error + image"
  contrast_enhance :: "image \<Rightarrow> rat \<Rightarrow> error + image"
  filter_sharpen :: "image \<Rightarrow> error + image"
  image_save :: "image \<Rightarrow> pystr \<Rightarrow> error + unit"
  image_to_string :: "image \<Rightarrow> pystr \<Rightarrow> pystr \<Rightarrow> error + pystr"
  write_text :: "pystr \<Rightarrow> pystr \<Rightarrow> error + unit"
  strftime :: "pystr \<Rightarrow> pystr"
  console :: "msg \<Rightarrow> error + unit"

text \<open>
  What a run does that can be observed: the lines it has printed and the calls
  that write or recognise.
\<close>

datatype event =
    Print msg
  | Mkdir pystr
  | SaveImage pystr image
  | Recognize image pystr pystr
  | WriteText pystr pystr

text \<open>
  A computation yields the events so far and either the exception that ended it or
  its value.
\<close>

type_synonym 'a io = "event list \<times> (error + 'a)"

definition ret :: "'a \<Rightarrow> 'a io" where
  "ret x = ([], Inr x)"

text \<open>\<open>print\<close>: the line is in the trace when the console took it.\<close>

definition print_line :: "world \<Rightarrow> msg \<Rightarrow> unit io" where
  "print_line w m =
     (case console w m of Inl e \<Rightarrow> ([], Inl e) | Inr u \<Rightarrow> ([Print m], Inr ()))"

definition call :: "error + 'a \<Rightarrow> 'a io" where
  "call r = ([], r)"

definition perform :: "event \<Rightarrow> error + 'a \<Rightarrow> 'a io" where
  "perform e r = ([e], r)"

definition then_io :: "'a io \<Rightarrow> ('a \<Rightarrow> 'b io) \<Rightarrow> 'b io" where
  "then_io m f =
     (case m of
        (es, Inl e) \<Rightarrow> (es, Inl e)
      | (es, Inr x) \<Rightarrow> (case f x of (es', r) \<Rightarrow> (es @ es', r)))"

definition try_except :: "'a io \<Rightarrow> (error \<Rightarrow> 'a io) \<Rightarrow> 'a io" where
  "try_except m h =
     (case m of
        (es, Inl e) \<Rightarrow> (case h e of (es', r) \<Rightarrow> (es @ es', r))
      | (es, Inr x) \<Rightarrow> (es, Inr x))"

section \<open>The pipeline\<close>

definition preprocess_image :: "world \<Rightarrow> image \<Rightarrow> image io" where
  "preprocess_image w img =
     then_io (call (image_convert w (lit ''L'') img)) (\<lambda>img.
     then_io (call (contrast_enhance w img 2)) (\<lambda>img.
     call (filter_sharpen w img)))"

definition output_dir :: pystr where
  "output_dir = lit ''output''"

definition path_div :: "pystr \<Rightarrow> pystr \<Rightarrow> pystr" where
  "path_div d n = d @ lit ''/'' @ n"

definition custom_config :: pystr where
  "custom_config = lit ''--oem 3 --psm 6''"

definition ocr_documento_legal :: "world \<Rightarrow> pystr \<Rightarrow> bool \<Rightarrow> bool \<Rightarrow> pystr io" where
  "ocr_documento_legal w image_path preprocess save_preprocessed =
     then_io (print_line w (MsgProcessing (path_name w image_path))) (\<lambda>_.
     then_io (call (image_open w image_path)) (\<lambda>img.
     then_io (call (stat_size w image_path)) (\<lambda>file_size.
     then_io (print_line w (MsgSize (img_width img) (img_height img) file_size)) (\<lambda>_.
     then_io
       (if preprocess then
          then_io (print_line w MsgPreprocessing) (\<lambda>_.
          then_io (preprocess_image w img) (\<lambda>img_processed.
          then_io
            (if save_preprocessed then
               then_io (perform (Mkdir output_dir) (mkdir w output_dir)) (\<lambda>_.
               let preprocessed_path =
                     path_div output_dir (path_stem w image_path @ lit ''_preprocessed.png'')
               in then_io (perform (SaveImage preprocessed_path img_processed)
                             (image_save w img_processed preprocessed_path)) (\<lambda>_.
                  print_line w (MsgPreprocessedSaved preprocessed_path)))
             else ret ()) (\<lambda>_.
          ret img_processed)))
        else ret img) (\<lambda>img_processed.
     then_io (print_line w MsgExtracting) (\<lambda>_.
     then_io (perform (Recognize img_processed (lit ''spa+eng'') custom_config)
                (image_to_string w img_processed (lit ''spa+eng'') custom_config)) (\<lambda>text.
     let text = clean_text text;
         stats = text_stats text
     in then_io (print_line w (MsgStats (st_lines stats) (st_words stats) (st_chars stats))) (\<lambda>_.
        ret text))))))))"

definition md_content :: "world \<Rightarrow> pystr \<Rightarrow> pystr \<Rightarrow> pystr" where
  "md_content w text image_path =
     lit ''# Documento: '' @ path_stem w image_path @ [NL, NL] @
     lit ''**Fuente:** '' @ [96] @ path_name w image_path @ [96] @ lit ''  '' @ [NL] @
     lit ''**Fecha de procesamiento:** '' @ strftime w (lit ''%Y-%m-%d %H:%M:%S'') @ [NL, NL] @
     lit ''---'' @ [NL, NL] @ text @ [NL]"

definition save_results :: "world \<Rightarrow> pystr \<Rightarrow> pystr \<Rightarrow> bool \<Rightarrow> unit io" where
  "save_results w text image_path include_metadata =
     then_io (perform (Mkdir output_dir) (mkdir w output_dir)) (\<lambda>_.
     let base_name = path_stem w image_path;
         txt_file = path_div output_dir (base_name @ lit ''.txt'')
     in then_io (perform (WriteText txt_file text) (write_text w txt_file text)) (\<lambda>_.
        then_io (print_line w (MsgSaved txt_file)) (\<lambda>_.
        if include_metadata then
          let md_file = path_div output_dir (base_name @ lit ''.md'')
          in then_io (perform (WriteText md_file (md_content w text image_path))
                        (write_text w md_file (md_content w text image_path))) (\<lambda>_.
             print_line w (MsgSaved md_file))
        else ret ())))"

section \<open>Batch processing and the command line\<close>

definition extensions :: "pystr list" where
  "extensions = [lit ''*.png'', lit ''*.jpg'', lit ''*.jpeg'', lit ''*.tiff'', lit ''*.bmp'']"

definition find_images :: "world \<Rightarrow> pystr \<Rightarrow> pystr list" where
  "find_images w input_dir = concat (map (path_glob w input_dir) extensions)"

text \<open>The body of the \<open>try\<close> in the loop of \<open>process_batch\<close>.\<close>

definition try_body :: "world \<Rightarrow> bool \<Rightarrow> pystr \<Rightarrow> unit io" where
  "try_body w preprocess img_path =
     then_io (ocr_documento_legal w img_path preprocess False) (\<lambda>text.
     then_io (save_results w text img_path True) (\<lambda>_.
     print_line w MsgBlank))"

fun batch_loop :: "world \<Rightarrow> bool \<Rightarrow> nat \<Rightarrow> nat \<Rightarrow> pystr list \<Rightarrow> unit io" where
  "batch_loop w preprocess n i [] = ret ()"
| "batch_loop w preprocess n i (img_path # rest) =
     then_io (print_line w (MsgProgress i n (path_name w img_path))) (\<lambda>_.
     then_io (print_line w MsgRule) (\<lambda>_.
     then_io (try_except (try_body w preprocess img_path)
                (\<lambda>e. print_line w (MsgError e))) (\<lambda>_.
     batch_loop w preprocess n (Suc i) rest)))"

definition process_batch :: "world \<Rightarrow> pystr \<Rightarrow> bool \<Rightarrow> unit io" where
  "process_batch w input_dir preprocess =
     (let images = find_images w input_dir
      in if images = [] then print_line w (MsgNoImages input_dir)
         else
           then_io (print_line w (MsgFound (length images))) (\<lambda>_.
           then_io (batch_loop w preprocess (length images) 1 images) (\<lambda>_.
           print_line w (MsgSummary (length images)))))"

text \<open>
  The exit status of the interpreter: 0 when \<open>main\<close> returns, 1 when an exception
  leaves it or \<open>sys.exit(1)\<close> is called.
\<close>

definition exit_status :: "unit io \<Rightarrow> event list \<times> nat" where
  "exit_status m = (case m of (es, Inl e) \<Rightarrow> (es, 1) | (es, Inr u) \<Rightarrow> (es, 0))"

definition main :: "world \<Rightarrow> pystr list \<Rightarrow> event list \<times> nat" where
  "main w argv =
     (if length argv < 2 then (fst (print_line w MsgUsage), 1)
      else
        let path = argv ! 1;
            preprocess = (lit ''--no-prep'' \<notin> set argv);
            save_preprocessed = (lit ''--save-prep'' \<in> set argv)
        in if \<not> path_exists w path then (fst (print_line w (MsgNotExists path)), 1)
           else if path_is_dir w path then
             exit_status (process_batch w (path_str w path) preprocess)
           else
             exit_status
               (then_io (ocr_documento_legal w path preprocess save_preprocessed) (\<lambda>text.
                then_io (print_line w (MsgText text)) (\<lambda>_.
                then_io (print_line w MsgBlank) (\<lambda>_.
                save_results w text path True)))))"

section \<open>Predicates on text\<close>

text \<open>
  Predicates on text that the statements below use: a line is blank when it has only
  whitespace, and trimmed when it neither starts nor ends with whitespace;
  \<open>two_spaces\<close> finds two adjacent spaces. \<open>strip_lines\<close> and \<open>norm2\<close> name
  the third step of \<open>clean_text\<close> and its first two steps together.
\<close>

definition blank :: "pystr \<Rightarrow> bool" where
  "blank l \<longleftrightarrow> (\<forall>c\<in>set l. isspace c)"

definition trimmed :: "pystr \<Rightarrow> bool" where
  "trimmed l \<longleftrightarrow> l = [] \<or> (\<not> isspace (hd l) \<and> \<not> isspace (last l))"

fun two_spaces :: "pystr \<Rightarrow> bool" where
  "two_spaces (c # d # cs) = ((c = SP \<and> d = SP) \<or> two_spaces (d # cs))"
| "two_spaces _ = False"

definition strip_lines :: "pystr \<Rightarrow> pystr" where
  "strip_lines t = join_nl (map strip (split_nl t))"

definition norm2 :: "pystr \<Rightarrow> pystr" where
  "norm2 s = sub_newlines (sub_spaces s)"

section \<open>Observations on a run\<close>

text \<open>
  What is read off the events of a run. The batch loop prints a progress line for each
  document and ends the document with a blank line (after its results are saved) or
  with the error message of its handler: \<open>outcomes\<close> collects these endings in order,
  \<open>True\<close> for a success, and \<open>progress\<close> the progress lines. \<open>doc_step\<close> is the
  \<open>try\<close> statement of the loop. \<open>ocr_event\<close> and \<open>save_event\<close> list the events
  the two functions of the pipeline can produce.

  \<open>unguarded_lines\<close> are the lines \<open>process_batch\<close> prints outside the \<open>try\<close>:
  the message that no images were found, or the header, the progress line and the rule
  of each document, the error line of the handler for a document that raised, and the
  summary. An exception of \<open>print\<close> on one of them is caught by nothing.
\<close>

definition all_events :: "(event \<Rightarrow> bool) \<Rightarrow> 'a io \<Rightarrow> bool" where
  "all_events P m \<longleftrightarrow> (\<forall>e\<in>set (fst m). P e)"

fun outcome_of :: "event \<Rightarrow> bool option" where
  "outcome_of (Print MsgBlank) = Some True"
| "outcome_of (Print (MsgError e)) = Some False"
| "outcome_of _ = None"

definition outcomes :: "event list \<Rightarrow> bool list" where
  "outcomes tr = List.map_filter outcome_of tr"






fun ocr_event :: "bool \<Rightarrow> event \<Rightarrow> bool" where
  "ocr_event sv (Print (MsgProcessing n)) = True"
| "ocr_event sv (Print (MsgSize a b c)) = True"
| "ocr_event sv (Print MsgPreprocessing) = True"
| "ocr_event sv (Print (MsgPreprocessedSaved p)) = sv"
| "ocr_event sv (Print MsgExtracting) = True"
| "ocr_event sv (Print (MsgStats a b c)) = True"
| "ocr_event sv (Mkdir p) = sv"
| "ocr_event sv (SaveImage p i) = sv"
| "ocr_event sv (Recognize i l c) = (l = lit ''spa+eng'' \<and> c = lit ''--oem 3 --psm 6'')"
| "ocr_event sv _ = False"

fun save_event :: "event \<Rightarrow> bool" where
  "save_event (Print (MsgSaved p)) = True"
| "save_event (Mkdir p) = True"
| "save_event (WriteText p t) = True"
| "save_event _ = False"

fun fixed_config :: "event \<Rightarrow> bool" where
  "fixed_config (Recognize i l c) = (l = lit ''spa+eng'' \<and> c = lit ''--oem 3 --psm 6'')"
| "fixed_config _ = True"

fun not_save_image :: "event \<Rightarrow> bool" where
  "not_save_image (SaveImage p i) = False"
| "not_save_image _ = True"

section \<open>The imaging library\<close>

text \<open>
  Pillow is not part of the repository; its three operations are fields of the world.
  \<open>greyscale\<close> is a raster of mode \<open>L\<close> with at least one pixel and one sample per
  pixel, and \<open>greyscale_of img out\<close> says that \<open>out\<close> has mode \<open>L\<close>, the size of
  \<open>img\<close> and one sample per pixel. \<open>pillow_contract\<close> is what the statement on
  \<open>preprocess_image\<close> takes from the library: whenever \<open>convert('L')\<close> returns, it
  returns the greyscale of its argument (it may raise: it refuses the mode \<open>LAB\<close>);
  \<open>Contrast.enhance\<close> and \<open>filter(SHARPEN)\<close> of a greyscale raster return a
  greyscale raster of the same size.
\<close>

definition greyscale :: "image \<Rightarrow> bool" where
  "greyscale img \<longleftrightarrow>
     img_mode img = lit ''L'' \<and> 1 \<le> img_width img \<and> 1 \<le> img_height img \<and>
     length (img_data img) = img_width img * img_height img"

definition greyscale_of :: "image \<Rightarrow> image \<Rightarrow> bool" where
  "greyscale_of img out \<longleftrightarrow>
     img_mode out = lit ''L'' \<and> img_width out = img_width img \<and>
     img_height out = img_height img \<and>
     length (img_data out) = img_width img * img_height img"

definition pillow_contract :: "world \<Rightarrow> bool" where
  "pillow_contract w \<longleftrightarrow>
     (\<forall>img out. image_convert w (lit ''L'') img = Inr out \<longrightarrow> greyscale_of img out) \<and>
     (\<forall>img f. greyscale img \<longrightarrow>
        (\<exists>out. contrast_enhance w img f = Inr out \<and> greyscale_of img out)) \<and>
     (\<forall>img. greyscale img \<longrightarrow>
        (\<exists>out. filter_sharpen w img = Inr out \<and> greyscale_of img out))"

section \<open>An example world\<close>

text \<open>
  A directory \<open>input\<close> with a decodable \<open>a.png\<close> and an undecodable \<open>b.jpg\<close>,
  a directory \<open>empty\<close> without images, a directory \<open>raw\<close> whose only image has a
  name with a lone surrogate (a file name that is not valid UTF-8), an empty directory
  with such a name, a raster of mode \<open>LAB\<close>, and an engine that returns a fixed
  text. The library converts \<open>RGB\<close> with the ITU-R 601-2 luma transform and
  refuses other modes, stretches the contrast around the mean and leaves a raster
  smaller than the sharpening kernel as it is. The console is a strict UTF-8 stream:
  \<open>print\<close> raises on a line that holds a surrogate. \<open>full_disk_world\<close> is the same
  world with a disk on which no image can be saved.
\<close>

fun luma :: "nat list \<Rightarrow> nat list" where
  "luma (r # g # b # rest) = (299 * r + 587 * g + 114 * b) div 1000 # luma rest"
| "luma _ = []"

definition demo_convert :: "pystr \<Rightarrow> image \<Rightarrow> error + image" where
  "demo_convert m img =
     (if m = lit ''L'' \<and> img_mode img = lit ''RGB'' \<and>
         length (img_data img) = 3 * (img_width img * img_height img)
      then Inr (img\<lparr>img_mode := lit ''L'', img_data := luma (img_data img)\<rparr>)
      else if m = lit ''L'' \<and> img_mode img = lit ''L'' \<and>
         length (img_data img) = img_width img * img_height img
      then Inr img
      else Inl (Exception (lit ''conversion from '' @ img_mode img @ lit '' to '' @ m @
             lit '' not supported'')))"

definition demo_enhance :: "image \<Rightarrow> rat \<Rightarrow> error + image" where
  "demo_enhance img f =
     (let mean = sum_list (img_data img) div length (img_data img)
      in Inr (img\<lparr>img_data :=
           map (\<lambda>p. nat (min 255 (max 0 \<lfloor>of_nat mean + f * (of_nat p - of_nat mean)\<rfloor>)))
             (img_data img)\<rparr>))"

fun msg_strings :: "msg \<Rightarrow> pystr list" where
  "msg_strings (MsgProcessing n) = [n]"
| "msg_strings (MsgPreprocessedSaved p) = [p]"
| "msg_strings (MsgSaved p) = [p]"
| "msg_strings (MsgNoImages d) = [d]"
| "msg_strings (MsgProgress i n name) = [name]"
| "msg_strings (MsgError (Exception s)) = [s]"
| "msg_strings (MsgNotExists p) = [p]"
| "msg_strings (MsgText t) = [t]"
| "msg_strings _ = []"

definition encodable :: "pystr \<Rightarrow> bool" where
  "encodable s = list_all (\<lambda>c. c < 55296 \<or> 57343 < c) s"

definition utf8_console :: "msg \<Rightarrow> error + unit" where
  "utf8_console m =
     (if list_all encodable (msg_strings m) then Inr ()
      else Inl (Exception (lit ''UnicodeEncodeError'')))"

definition demo_image :: image where
  "demo_image = \<lparr>img_mode = lit ''RGB'', img_width = 2, img_height = 1,
     img_data = [255, 0, 0, 0, 0, 255]\<rparr>"

definition demo_luma :: image where
  "demo_luma = \<lparr>img_mode = lit ''L'', img_width = 2, img_height = 1, img_data = [76, 29]\<rparr>"

definition demo_grey :: image where
  "demo_grey = \<lparr>img_mode = lit ''L'', img_width = 2, img_height = 1, img_data = [100, 6]\<rparr>"

definition lab_image :: image where
  "lab_image = \<lparr>img_mode = lit ''LAB'', img_width = 1, img_height = 1,
     img_data = [50, 128, 128]\<rparr>"

definition raw_name :: pystr where
  "raw_name = [56575] @ lit ''.png''"

definition demo_world :: world where
  "demo_world =
     \<lparr>path_name = (\<lambda>p. rev (takeWhile (\<lambda>c. c \<noteq> 47) (rev p))),
      path_stem = (\<lambda>p. takeWhile (\<lambda>c. c \<noteq> 46) (rev (takeWhile (\<lambda>c. c \<noteq> 47) (rev p)))),
      path_str = (\<lambda>p. p),
      path_exists = (\<lambda>p. True),
      path_is_dir = (\<lambda>p. p = lit ''input'' \<or> p = lit ''empty'' \<or> p = lit ''raw'' \<or> p = [56575]),
      path_glob = (\<lambda>d pat.
        if d = lit ''input'' \<and> pat = lit ''*.png'' then [lit ''input/a.png'']
        else if d = lit ''input'' \<and> pat = lit ''*.jpg'' then [lit ''input/b.jpg'']
        else if d = lit ''raw'' \<and> pat = lit ''*.png'' then [lit ''raw/'' @ raw_name]
        else []),
      stat_size = (\<lambda>p. Inr 2048),
      mkdir = (\<lambda>p. Inr ()),
      image_open = (\<lambda>p.
        if p = lit ''input/b.jpg'' then Inl (Exception (lit ''cannot identify image file''))
        else if p = lit ''input/lab.tiff'' then Inr lab_image
        else Inr demo_image),
      image_convert = demo_convert,
      contrast_enhance = demo_enhance,
      filter_sharpen = (\<lambda>img. Inr img),
      image_save = (\<lambda>img p. Inr ()),
      image_to_string = (\<lambda>img l c. Inr (lit ''Hola   mundo'' @ [NL, NL, NL, NL] @ lit ''Adi'' @ [243, 115])),
      write_text = (\<lambda>p t. Inr ()),
      strftime = (\<lambda>f. lit ''2024-01-01 00:00:00''),
      console = utf8_console\<rparr>"

definition full_disk_world :: world where
  "full_disk_world =
     demo_world\<lparr>image_save := (\<lambda>img p. Inl (Exception (lit ''No space left on device'')))\<rparr>"

section \<open>Lemmas\<close>

subsection \<open>Splitting and joining lines\<close>

lemma isspace_SP: "isspace SP" by (simp add: isspace_def SP_def)

lemma isspace_NL: "isspace NL" by (simp add: isspace_def NL_def)

lemma NL_neq_SP: "NL \<noteq> SP" by (simp add: NL_def SP_def)

lemma split_nl_not_Nil: "split_nl s \<noteq> []"
  by (induction s) (auto split: list.splits)

lemma split_nl_Cons_other:
  "c \<noteq> NL \<Longrightarrow> split_nl (c # cs) = (c # hd (split_nl cs)) # tl (split_nl cs)"
  using split_nl_not_Nil [of cs] by (cases "split_nl cs") auto

lemma split_nl_no_NL: "NL \<notin> set s \<Longrightarrow> split_nl s = [s]"
  by (induction s) (auto simp: split_nl_Cons_other)

lemma split_nl_lines_no_NL: "l \<in> set (split_nl s) \<Longrightarrow> NL \<notin> set l"
proof (induction s arbitrary: l)
  case Nil
  then show ?case by simp
next
  case (Cons c cs)
  show ?case
  proof (cases "c = NL")
    case True
    with Cons show ?thesis by auto
  next
    case False
    obtain m ms where sp: "split_nl cs = m # ms"
      using split_nl_not_Nil [of cs] by (cases "split_nl cs") auto
    with Cons.prems False have "l = c # m \<or> l \<in> set ms" by auto
    then show ?thesis
    proof
      assume "l = c # m"
      moreover have "NL \<notin> set m" using Cons.IH [of m] sp by simp
      ultimately show ?thesis using False by auto
    next
      assume "l \<in> set ms"
      then show ?thesis using Cons.IH [of l] sp by simp
    qed
  qed
qed

lemma split_nl_append:
  "split_nl (a @ b) =
     butlast (split_nl a) @ (last (split_nl a) @ hd (split_nl b)) # tl (split_nl b)"
proof (induction a)
  case Nil
  then show ?case using split_nl_not_Nil [of b] by simp
next
  case (Cons c a)
  obtain m ms where sp: "split_nl a = m # ms"
    using split_nl_not_Nil [of a] by (cases "split_nl a") auto
  show ?case
  proof (cases "c = NL")
    case True
    then show ?thesis using Cons sp by simp
  next
    case False
    show ?thesis
    proof (cases ms)
      case Nil
      then show ?thesis using Cons sp False by (simp add: split_nl_Cons_other)
    next
      case (Cons m' ms')
      then show ?thesis using Cons.IH sp False by (simp add: split_nl_Cons_other)
    qed
  qed
qed

lemma split_nl_append_NL: "split_nl (a @ NL # b) = split_nl a @ split_nl b"
  using split_nl_not_Nil [of a] by (simp add: split_nl_append)

lemma join_nl_append:
  "xs \<noteq> [] \<Longrightarrow> ys \<noteq> [] \<Longrightarrow> join_nl (xs @ ys) = join_nl xs @ NL # join_nl ys"
proof (induction xs rule: join_nl.induct)
  case 1
  then show ?case by simp
next
  case (2 l)
  then show ?case by (cases ys) auto
next
  case (3 l m ls)
  then show ?case by simp
qed

lemma join_split_nl: "join_nl (split_nl s) = s"
proof (induction s)
  case Nil
  then show ?case by simp
next
  case (Cons c cs)
  obtain m ms where sp: "split_nl cs = m # ms"
    using split_nl_not_Nil [of cs] by (cases "split_nl cs") auto
  show ?case
  proof (cases "c = NL")
    case True
    then show ?thesis using Cons sp by simp
  next
    case False
    then show ?thesis using Cons sp by (cases ms) auto
  qed
qed

lemma split_join_nl:
  "ls \<noteq> [] \<Longrightarrow> \<forall>l\<in>set ls. NL \<notin> set l \<Longrightarrow> split_nl (join_nl ls) = ls"
proof (induction ls rule: join_nl.induct)
  case 1
  then show ?case by simp
next
  case (2 l)
  then show ?case by (simp add: split_nl_no_NL)
next
  case (3 l m ls)
  then show ?case by (simp add: split_nl_append_NL split_nl_no_NL)
qed

subsection \<open>Stripping\<close>

lemma lstrip_blank: "lstrip s = [] \<longleftrightarrow> blank s"
  by (auto simp: lstrip_def blank_def)

lemma lstrip_hd: "lstrip s \<noteq> [] \<Longrightarrow> \<not> isspace (hd (lstrip s))"
  unfolding lstrip_def by (rule hd_dropWhile)

lemma lstrip_suffix: "\<exists>w. s = w @ lstrip s \<and> blank w"
proof -
  have "s = takeWhile isspace s @ lstrip s" by (simp add: lstrip_def)
  moreover have "blank (takeWhile isspace s)"
    by (auto simp: blank_def dest: set_takeWhileD)
  ultimately show ?thesis by blast
qed

lemma rstrip_prefix: "\<exists>w. s = rstrip s @ w \<and> blank w"
proof -
  have "rev (rev s) = rev (dropWhile isspace (rev s)) @ rev (takeWhile isspace (rev s))"
    by (metis rev_append takeWhile_dropWhile_id)
  then have "s = rstrip s @ rev (takeWhile isspace (rev s))"
    by (simp add: rstrip_def)
  moreover have "blank (rev (takeWhile isspace (rev s)))"
    by (auto simp: blank_def dest: set_takeWhileD)
  ultimately show ?thesis by blast
qed

lemma rstrip_last: "rstrip s \<noteq> [] \<Longrightarrow> \<not> isspace (last (rstrip s))"
proof -
  assume "rstrip s \<noteq> []"
  then have ne: "dropWhile isspace (rev s) \<noteq> []" by (simp add: rstrip_def)
  then have "\<not> isspace (hd (dropWhile isspace (rev s)))" by (rule hd_dropWhile)
  then show ?thesis using ne by (simp add: rstrip_def last_rev)
qed

lemma rstrip_blank: "rstrip s = [] \<longleftrightarrow> blank s"
  by (auto simp: rstrip_def blank_def)

lemma rstrip_id: "s \<noteq> [] \<Longrightarrow> \<not> isspace (last s) \<Longrightarrow> rstrip s = s"
  by (cases s rule: rev_cases) (auto simp: rstrip_def)

lemma rstrip_Nil: "rstrip [] = []"
  by (simp add: rstrip_def)

lemma lstrip_id: "s \<noteq> [] \<Longrightarrow> \<not> isspace (hd s) \<Longrightarrow> lstrip s = s"
  by (cases s) (auto simp: lstrip_def)

lemma rstrip_hd: "rstrip s \<noteq> [] \<Longrightarrow> hd (rstrip s) = hd s"
proof -
  assume ne: "rstrip s \<noteq> []"
  obtain w where "s = rstrip s @ w" using rstrip_prefix by blast
  then have "hd s = hd (rstrip s @ w)" by simp
  then show ?thesis using ne by simp
qed

lemma strip_blank: "strip s = [] \<longleftrightarrow> blank s"
proof -
  obtain w where w: "s = w @ lstrip s" "blank w" using lstrip_suffix by blast
  have "blank s \<longleftrightarrow> blank (lstrip s)"
  proof
    assume "blank s"
    then have "blank (w @ lstrip s)" using w(1) by simp
    then show "blank (lstrip s)" by (simp add: blank_def)
  next
    assume "blank (lstrip s)"
    then have "blank (w @ lstrip s)" using w(2) by (auto simp: blank_def)
    then show "blank s" using w(1) by simp
  qed
  then show ?thesis by (simp add: strip_def rstrip_blank)
qed

lemma trimmed_strip: "trimmed (strip s)"
proof (cases "strip s = []")
  case True
  then show ?thesis by (simp add: trimmed_def)
next
  case False
  then have ne: "rstrip (lstrip s) \<noteq> []" by (simp add: strip_def)
  then have "lstrip s \<noteq> []" by (auto simp: rstrip_Nil)
  then have "\<not> isspace (hd (lstrip s))" by (rule lstrip_hd)
  then have "\<not> isspace (hd (strip s))" using ne by (simp add: strip_def rstrip_hd)
  moreover have "\<not> isspace (last (strip s))" using ne by (simp add: strip_def rstrip_last)
  ultimately show ?thesis by (simp add: trimmed_def)
qed

lemma set_strip: "set (strip s) \<subseteq> set s"
proof -
  obtain w where w: "s = w @ lstrip s" using lstrip_suffix by blast
  obtain v where v: "lstrip s = rstrip (lstrip s) @ v" using rstrip_prefix by blast
  have "s = w @ strip s @ v" using w v by (simp add: strip_def)
  then have "set s = set (w @ strip s @ v)" by simp
  then show ?thesis by auto
qed

lemma lines_lstrip:
  "\<forall>l\<in>set (split_nl s). trimmed l \<Longrightarrow> \<forall>l\<in>set (split_nl (lstrip s)). trimmed l"
proof (induction s)
  case Nil
  then show ?case by (simp add: lstrip_def)
next
  case (Cons c cs)
  show ?case
  proof (cases "isspace c")
    case False
    then have "lstrip (c # cs) = c # cs" by (simp add: lstrip_def)
    then show ?thesis using Cons.prems by simp
  next
    case True
    then have ls: "lstrip (c # cs) = lstrip cs" by (simp add: lstrip_def)
    show ?thesis
    proof (cases "c = NL")
      case True
      then have "\<forall>l\<in>set (split_nl cs). trimmed l" using Cons.prems by simp
      then show ?thesis using Cons.IH ls by simp
    next
      case False
      then have "trimmed (c # hd (split_nl cs))"
        using Cons.prems by (simp add: split_nl_Cons_other del: split_nl.simps)
      then have False using True by (simp add: trimmed_def)
      then show ?thesis ..
    qed
  qed
qed

lemma last_split_nl:
  "s \<noteq> [] \<Longrightarrow> last s \<noteq> NL \<Longrightarrow> last (split_nl s) \<noteq> [] \<and> last (last (split_nl s)) = last s"
proof (induction s)
  case Nil
  then show ?case by simp
next
  case (Cons c cs)
  obtain m ms where sp: "split_nl cs = m # ms"
    using split_nl_not_Nil [of cs] by (cases "split_nl cs") auto
  show ?case
  proof (cases "cs = []")
    case True
    then show ?thesis using Cons.prems by simp
  next
    case False
    then have ih: "last (split_nl cs) \<noteq> [] \<and> last (last (split_nl cs)) = last cs"
      using Cons by simp
    show ?thesis
    proof (cases "c = NL")
      case True
      then show ?thesis using ih False sp by simp
    next
      case False
      then show ?thesis using ih \<open>cs \<noteq> []\<close> sp by (cases ms) auto
    qed
  qed
qed

lemma lines_rstrip:
  assumes "\<forall>l\<in>set (split_nl s). trimmed l"
  shows "\<forall>l\<in>set (split_nl (rstrip s)). trimmed l"
proof (cases "rstrip s = []")
  case True
  then show ?thesis by (simp add: trimmed_def)
next
  case False
  define p where "p = rstrip s"
  obtain w where w: "s = p @ w" using rstrip_prefix p_def by blast
  have pl: "\<not> isspace (last p)" using False p_def rstrip_last by simp
  then have "last p \<noteq> NL" using isspace_NL by auto
  then have lp: "last (split_nl p) \<noteq> []" "last (last (split_nl p)) = last p"
    using last_split_nl [of p] False p_def by simp_all
  have sp: "split_nl s =
      butlast (split_nl p) @ (last (split_nl p) @ hd (split_nl w)) # tl (split_nl w)"
    using w by (simp add: split_nl_append)
  have "trimmed (last (split_nl p) @ hd (split_nl w))" using assms sp by simp
  then have "\<not> isspace (hd (last (split_nl p)))" using lp(1) by (simp add: trimmed_def)
  then have tl: "trimmed (last (split_nl p))" using lp pl by (simp add: trimmed_def)
  have "\<forall>l\<in>set (butlast (split_nl p)). trimmed l" using assms sp by simp
  moreover have "split_nl p = butlast (split_nl p) @ [last (split_nl p)]"
    using split_nl_not_Nil [of p] by simp
  ultimately have "\<forall>l\<in>set (split_nl p). trimmed l"
    using tl by (metis Un_iff insert_iff list.set(2) set_append empty_iff list.set(1))
  then show ?thesis using p_def by simp
qed

lemma clean_text_alt: "clean_text s = strip (strip_lines (sub_newlines (sub_spaces s)))"
  by (simp add: clean_text_def strip_lines_def Let_def)

lemma lines_strip_lines: "split_nl (strip_lines t) = map strip (split_nl t)"
  unfolding strip_lines_def
proof (rule split_join_nl)
  show "map strip (split_nl t) \<noteq> []" by (simp add: split_nl_not_Nil)
  show "\<forall>l\<in>set (map strip (split_nl t)). NL \<notin> set l"
    using split_nl_lines_no_NL set_strip by fastforce
qed

subsection \<open>Adjacent spaces\<close>

lemma two_spaces_Cons:
  "two_spaces (c # s) \<longleftrightarrow> (s \<noteq> [] \<and> c = SP \<and> hd s = SP) \<or> two_spaces s"
  by (cases s) auto

lemma two_spaces_append:
  "two_spaces (a @ b) \<longleftrightarrow>
     two_spaces a \<or> two_spaces b \<or> (a \<noteq> [] \<and> b \<noteq> [] \<and> last a = SP \<and> hd b = SP)"
proof (induction a)
  case Nil
  then show ?case by simp
next
  case (Cons c a)
  show ?case
  proof (cases "a = []")
    case True
    then show ?thesis by (auto simp: two_spaces_Cons)
  next
    case False
    then show ?thesis using Cons by (auto simp: two_spaces_Cons)
  qed
qed

lemma two_spaces_iff: "two_spaces s \<longleftrightarrow> (\<exists>a b. s = a @ [SP, SP] @ b)"
proof
  show "two_spaces s \<Longrightarrow> \<exists>a b. s = a @ [SP, SP] @ b"
  proof (induction s rule: two_spaces.induct)
    case (1 c d cs)
    show ?case
    proof (cases "c = SP \<and> d = SP")
      case True
      then have "c # d # cs = [] @ [SP, SP] @ cs" by simp
      then show ?thesis by blast
    next
      case False
      then have "two_spaces (d # cs)" using "1.prems" by auto
      then obtain a b where "d # cs = a @ [SP, SP] @ b" using "1.IH" False by blast
      then have "c # d # cs = (c # a) @ [SP, SP] @ b" by simp
      then show ?thesis by blast
    qed
  qed simp_all
next
  assume "\<exists>a b. s = a @ [SP, SP] @ b"
  then obtain a b where "s = a @ [SP, SP] @ b" by blast
  then show "two_spaces s" by (simp add: two_spaces_append)
qed

lemma two_spaces_dropWhile: "\<not> two_spaces s \<Longrightarrow> \<not> two_spaces (dropWhile P s)"
proof -
  assume h: "\<not> two_spaces s"
  from h have "\<not> two_spaces (takeWhile P s @ dropWhile P s)" by simp
  then show ?thesis unfolding two_spaces_append by blast
qed

lemma two_spaces_lstrip: "\<not> two_spaces s \<Longrightarrow> \<not> two_spaces (lstrip s)"
  unfolding lstrip_def by (rule two_spaces_dropWhile)

lemma two_spaces_rstrip: "\<not> two_spaces s \<Longrightarrow> \<not> two_spaces (rstrip s)"
proof -
  assume h: "\<not> two_spaces s"
  obtain w where "s = rstrip s @ w" using rstrip_prefix by blast
  then have "two_spaces s = two_spaces (rstrip s @ w)" by simp
  then show ?thesis using h by (simp add: two_spaces_append)
qed

lemma two_spaces_strip: "\<not> two_spaces s \<Longrightarrow> \<not> two_spaces (strip s)"
  by (simp add: strip_def two_spaces_lstrip two_spaces_rstrip)

lemma sub_spaces_Nil_iff: "sub_spaces s = [] \<longleftrightarrow> s = []"
  by (cases s) auto

lemma hd_sub_spaces: "s \<noteq> [] \<Longrightarrow> hd (sub_spaces s) = hd s"
  by (cases s) auto

lemma no_two_spaces_sub_spaces: "\<not> two_spaces (sub_spaces s)"
proof (induction s rule: sub_spaces.induct)
  case 1
  then show ?case by simp
next
  case (2 c cs)
  show ?case
  proof (cases "c = SP")
    case False
    then show ?thesis using 2 by (simp add: two_spaces_Cons)
  next
    case True
    define r where "r = dropWhile (\<lambda>d. d = SP) cs"
    have "r = [] \<or> hd r \<noteq> SP"
      using hd_dropWhile [of "\<lambda>d. d = SP" cs] r_def by auto
    then have "sub_spaces r = [] \<or> hd (sub_spaces r) \<noteq> SP"
      by (auto simp: hd_sub_spaces sub_spaces_Nil_iff)
    moreover have "\<not> two_spaces (sub_spaces r)" using 2 True r_def by simp
    ultimately show ?thesis using True r_def by (auto simp: two_spaces_Cons)
  qed
qed

lemma hd_sub_newlines: "s \<noteq> [] \<Longrightarrow> hd (sub_newlines s) = hd s"
  by (cases s) (auto split: if_splits)

lemma sub_newlines_Nil_iff: "sub_newlines s = [] \<longleftrightarrow> s = []"
  by (cases s) auto

lemma two_spaces_sub_newlines: "\<not> two_spaces s \<Longrightarrow> \<not> two_spaces (sub_newlines s)"
proof (induction s rule: sub_newlines.induct)
  case 1
  then show ?case by simp
next
  case (2 c cs)
  show ?case
  proof (cases "3 \<le> length (takeWhile (\<lambda>d. d = NL) (c # cs))")
    case True
    have "\<not> two_spaces (dropWhile (\<lambda>d. d = NL) (c # cs))"
      using "2.prems" by (rule two_spaces_dropWhile)
    then have "\<not> two_spaces (sub_newlines (dropWhile (\<lambda>d. d = NL) (c # cs)))"
      using 2 True by simp
    moreover have "sub_newlines (c # cs) =
        NL # NL # sub_newlines (dropWhile (\<lambda>d. d = NL) (c # cs))"
      using True by simp
    ultimately show ?thesis using NL_neq_SP by (simp add: two_spaces_Cons)
  next
    case False
    have "\<not> two_spaces cs" using "2.prems" by (simp add: two_spaces_Cons)
    then have ih: "\<not> two_spaces (sub_newlines cs)" using 2 False by simp
    have eq: "sub_newlines (c # cs) = c # sub_newlines cs" using False by simp
    have "\<not> (cs \<noteq> [] \<and> c = SP \<and> hd cs = SP)"
      using "2.prems" by (simp add: two_spaces_Cons)
    then have "\<not> (sub_newlines cs \<noteq> [] \<and> c = SP \<and> hd (sub_newlines cs) = SP)"
      by (auto simp: hd_sub_newlines sub_newlines_Nil_iff)
    then show ?thesis using ih eq by (simp add: two_spaces_Cons)
  qed
qed

lemma two_spaces_lines: "\<not> two_spaces s \<Longrightarrow> l \<in> set (split_nl s) \<Longrightarrow> \<not> two_spaces l"
proof -
  assume h: "\<not> two_spaces s" and l: "l \<in> set (split_nl s)"
  have "\<not> two_spaces (join_nl ls) \<Longrightarrow> l \<in> set ls \<Longrightarrow> \<not> two_spaces l" for ls
  proof (induction ls rule: join_nl.induct)
    case 1
    then show ?case by simp
  next
    case (2 m)
    then show ?case by simp
  next
    case (3 m n ls)
    then show ?case by (auto simp: two_spaces_append two_spaces_Cons)
  qed
  from this [of "split_nl s"] show ?thesis using h l by (simp add: join_split_nl)
qed

lemma two_spaces_join:
  "\<forall>l\<in>set ls. \<not> two_spaces l \<Longrightarrow> \<not> two_spaces (join_nl ls)"
proof (induction ls rule: join_nl.induct)
  case 1
  then show ?case by simp
next
  case (2 m)
  then show ?case by simp
next
  case (3 m n ls)
  then show ?case using NL_neq_SP by (auto simp: two_spaces_append two_spaces_Cons)
qed

lemma two_spaces_strip_lines: "\<not> two_spaces s \<Longrightarrow> \<not> two_spaces (strip_lines s)"
  unfolding strip_lines_def
  by (rule two_spaces_join) (auto dest: two_spaces_lines two_spaces_strip)

lemma no_two_spaces_clean_text: "\<not> two_spaces (clean_text s)"
  unfolding clean_text_alt
  by (intro two_spaces_strip two_spaces_strip_lines two_spaces_sub_newlines
      no_two_spaces_sub_spaces)

subsection \<open>The two substitutions\<close>

lemma sub_spaces_append_other:
  "c \<noteq> SP \<Longrightarrow> sub_spaces (a @ c # b) = sub_spaces a @ c # sub_spaces b"
proof (induction a rule: sub_spaces.induct)
  case 1
  then show ?case by simp
next
  case (2 x xs)
  show ?case
  proof (cases "x = SP")
    case False
    then show ?thesis using 2 by simp
  next
    case True
    have "dropWhile (\<lambda>d. d = SP) (xs @ c # b) = dropWhile (\<lambda>d. d = SP) xs @ c # b"
      using "2.prems" by (simp add: dropWhile_append)
    then show ?thesis using 2 True by simp
  qed
qed

lemma sub_spaces_replicate_NL:
  "sub_spaces (replicate k NL @ b) = replicate k NL @ sub_spaces b"
  using NL_neq_SP by (induction k) simp_all

lemma set_sub_spaces: "set (sub_spaces s) \<subseteq> set s"
proof (induction s rule: sub_spaces.induct)
  case 1
  then show ?case by simp
next
  case (2 c cs)
  have "set (dropWhile (\<lambda>d. d = SP) cs) \<subseteq> set cs" by (auto dest: set_dropWhileD)
  then show ?case using 2 by auto
qed

lemma takeWhile_NL_other:
  "c \<noteq> NL \<Longrightarrow> takeWhile (\<lambda>d. d = NL) (a @ c # b) = takeWhile (\<lambda>d. d = NL) a"
  by (induction a) auto

lemma dropWhile_NL_other:
  "c \<noteq> NL \<Longrightarrow> dropWhile (\<lambda>d. d = NL) (a @ c # b) = dropWhile (\<lambda>d. d = NL) a @ c # b"
  by (induction a) auto

lemma sub_newlines_append_other:
  "c \<noteq> NL \<Longrightarrow> sub_newlines (a @ c # b) = sub_newlines a @ c # sub_newlines b"
proof (induction a rule: sub_newlines.induct)
  case 1
  then show ?case by simp
next
  case (2 x xs)
  have tw: "takeWhile (\<lambda>d. d = NL) ((x # xs) @ c # b) = takeWhile (\<lambda>d. d = NL) (x # xs)"
    using "2.prems" by (rule takeWhile_NL_other)
  have dw: "dropWhile (\<lambda>d. d = NL) ((x # xs) @ c # b) =
      dropWhile (\<lambda>d. d = NL) (x # xs) @ c # b"
    using "2.prems" by (rule dropWhile_NL_other)
  show ?case
  proof (cases "3 \<le> length (takeWhile (\<lambda>d. d = NL) (x # xs))")
    case True
    have "sub_newlines ((x # xs) @ c # b) =
        NL # NL # sub_newlines (dropWhile (\<lambda>d. d = NL) (x # xs) @ c # b)"
      using True tw dw by (simp del: takeWhile.simps dropWhile.simps)
    also have "\<dots> = NL # NL # sub_newlines (dropWhile (\<lambda>d. d = NL) (x # xs)) @ c # sub_newlines b"
      using "2.IH"(1) True "2.prems" by simp
    also have "\<dots> = sub_newlines (x # xs) @ c # sub_newlines b"
      using True by (simp del: takeWhile.simps dropWhile.simps)
    finally show ?thesis .
  next
    case False
    have "sub_newlines ((x # xs) @ c # b) = x # sub_newlines (xs @ c # b)"
      using False tw by (simp del: takeWhile.simps dropWhile.simps)
    also have "\<dots> = x # sub_newlines xs @ c # sub_newlines b"
      using "2.IH"(2) False "2.prems" by simp
    also have "\<dots> = sub_newlines (x # xs) @ c # sub_newlines b"
      using False by (simp del: takeWhile.simps dropWhile.simps)
    finally show ?thesis .
  qed
qed

lemma sub_newlines_no_NL: "NL \<notin> set w \<Longrightarrow> sub_newlines (w @ r) = w @ sub_newlines r"
  by (induction w) auto

lemma sub_newlines_run:
  assumes "3 \<le> k" and "b = [] \<or> hd b \<noteq> NL"
  shows "sub_newlines (replicate k NL @ b) = NL # NL # sub_newlines b"
proof -
  obtain j where k: "k = Suc j" using assms(1) by (cases k) auto
  have tw: "takeWhile (\<lambda>d. d = NL) (replicate k NL @ b) = replicate k NL"
    using assms(2) by (cases b) (auto simp: takeWhile_append)
  have dw: "dropWhile (\<lambda>d. d = NL) (replicate k NL @ b) = b"
    using assms(2) by (cases b) (auto simp: dropWhile_append)
  have "sub_newlines (NL # replicate j NL @ b) =
      (if 3 \<le> length (takeWhile (\<lambda>d. d = NL) (NL # replicate j NL @ b))
       then NL # NL # sub_newlines (dropWhile (\<lambda>d. d = NL) (NL # replicate j NL @ b))
       else NL # sub_newlines (replicate j NL @ b))"
    by (rule sub_newlines.simps(2))
  then have "sub_newlines (replicate k NL @ b) =
      (if 3 \<le> length (takeWhile (\<lambda>d. d = NL) (replicate k NL @ b))
       then NL # NL # sub_newlines (dropWhile (\<lambda>d. d = NL) (replicate k NL @ b))
       else NL # sub_newlines (replicate j NL @ b))"
    using k by simp
  then show ?thesis using tw dw assms(1) by simp
qed

lemma last_line_nonblank:
  assumes "\<not> blank (last (split_nl u))"
  shows "\<exists>u1 c u2. u = u1 @ c # u2 \<and> \<not> isspace c \<and> NL \<notin> set u2"
proof -
  have "\<exists>p. u = p @ last (split_nl u)"
  proof (cases "NL \<in> set u")
    case False
    then show ?thesis by (simp add: split_nl_no_NL)
  next
    case True
    then obtain a b where ab: "u = a @ NL # b" "NL \<notin> set b"
      using split_list_last [of NL u] by blast
    then have "last (split_nl u) = b"
      by (simp add: split_nl_append_NL split_nl_no_NL)
    then show ?thesis using ab by auto
  qed
  then obtain p where p: "u = p @ last (split_nl u)" by blast
  obtain c where c: "c \<in> set (last (split_nl u))" "\<not> isspace c"
    using assms by (auto simp: blank_def)
  then obtain x y where xy: "last (split_nl u) = x @ c # y"
    using split_list [of c] by blast
  have "last (split_nl u) \<in> set (split_nl u)" using split_nl_not_Nil by simp
  then have "NL \<notin> set (last (split_nl u))" by (rule split_nl_lines_no_NL)
  then have "NL \<notin> set y" using xy by simp
  moreover have "u = (p @ x) @ c # y" using p xy by simp
  ultimately show ?thesis using c(2) by blast
qed

lemma first_line_nonblank:
  assumes "\<not> blank (hd (split_nl v))"
  shows "\<exists>v1 d v2. v = v1 @ d # v2 \<and> \<not> isspace d \<and> NL \<notin> set v1"
proof -
  have "\<exists>q. v = hd (split_nl v) @ q"
  proof (cases "NL \<in> set v")
    case False
    then show ?thesis by (simp add: split_nl_no_NL)
  next
    case True
    then obtain a b where ab: "v = a @ NL # b" "NL \<notin> set a"
      using split_list_first [of NL v] by blast
    then have "hd (split_nl v) = a"
      by (simp add: split_nl_append_NL split_nl_no_NL)
    then show ?thesis using ab by auto
  qed
  then obtain q where q: "v = hd (split_nl v) @ q" by blast
  obtain d where d: "d \<in> set (hd (split_nl v))" "\<not> isspace d"
    using assms by (auto simp: blank_def)
  then obtain x y where xy: "hd (split_nl v) = x @ d # y"
    using split_list [of d] by blast
  have "hd (split_nl v) \<in> set (split_nl v)" using split_nl_not_Nil by simp
  then have "NL \<notin> set (hd (split_nl v))" by (rule split_nl_lines_no_NL)
  then have "NL \<notin> set x" using xy by simp
  moreover have "v = x @ d # (y @ q)" using q xy by simp
  ultimately show ?thesis using d(2) by blast
qed

subsection \<open>A run of newlines between two lines\<close>

lemma strip_lines_append_NL:
  "strip_lines (a @ NL # b) = strip_lines a @ NL # strip_lines b"
  by (simp add: strip_lines_def split_nl_append_NL join_nl_append split_nl_not_Nil)

lemma strip_Nil: "strip [] = []"
  by (simp add: strip_def lstrip_def rstrip_def)

lemma strip_lines_NL: "strip_lines (NL # b) = NL # strip_lines b"
  using strip_lines_append_NL [of "[]" b] by (simp add: strip_lines_def strip_Nil)

lemma join_nl_snoc_last:
  "l \<noteq> [] \<Longrightarrow> join_nl (xs @ [l]) \<noteq> [] \<and> last (join_nl (xs @ [l])) = last l"
  by (cases "xs = []") (simp_all add: join_nl_append)

lemma join_nl_Cons_hd:
  "l \<noteq> [] \<Longrightarrow> join_nl (l # xs) \<noteq> [] \<and> hd (join_nl (l # xs)) = hd l"
  by (cases xs) simp_all

lemma strip_nonblank:
  "\<not> blank l \<Longrightarrow> strip l \<noteq> [] \<and> \<not> isspace (hd (strip l)) \<and> \<not> isspace (last (strip l))"
  using trimmed_strip [of l] by (simp add: strip_blank trimmed_def)

lemma strip_lines_ends:
  assumes "\<not> isspace c" and "NL \<notin> set u2"
  shows "strip_lines (u1 @ c # u2) \<noteq> [] \<and> \<not> isspace (last (strip_lines (u1 @ c # u2)))"
proof -
  have cn: "c \<noteq> NL" using assms(1) isspace_NL by auto
  then have "split_nl (c # u2) = [c # u2]" using assms(2) by (simp add: split_nl_no_NL)
  then have sp: "split_nl (u1 @ c # u2) =
      butlast (split_nl u1) @ [last (split_nl u1) @ c # u2]"
    by (simp add: split_nl_append [of u1 "c # u2"])
  define l where "l = last (split_nl u1) @ c # u2"
  have "\<not> blank l" using assms(1) by (auto simp: blank_def l_def)
  then have st: "strip l \<noteq> []" "\<not> isspace (last (strip l))"
    using strip_nonblank by simp_all
  have "strip_lines (u1 @ c # u2) = join_nl (map strip (butlast (split_nl u1)) @ [strip l])"
    using sp by (simp add: strip_lines_def l_def)
  then show ?thesis using join_nl_snoc_last [OF st(1)] st(2) by simp
qed

lemma strip_lines_begins:
  assumes "\<not> isspace d" and "NL \<notin> set v1"
  shows "strip_lines (v1 @ d # v2) \<noteq> [] \<and> \<not> isspace (hd (strip_lines (v1 @ d # v2)))"
proof -
  have dn: "d \<noteq> NL" using assms(1) isspace_NL by auto
  have sp: "split_nl (v1 @ d # v2) =
      (v1 @ d # hd (split_nl v2)) # tl (split_nl v2)"
    using assms(2) dn
    by (simp add: split_nl_append [of v1 "d # v2"] split_nl_no_NL split_nl_Cons_other
        del: split_nl.simps)
  define l where "l = v1 @ d # hd (split_nl v2)"
  have "\<not> blank l" using assms(1) by (auto simp: blank_def l_def)
  then have st: "strip l \<noteq> []" "\<not> isspace (hd (strip l))"
    using strip_nonblank by simp_all
  have "strip_lines (v1 @ d # v2) = join_nl (strip l # map strip (tl (split_nl v2)))"
    using sp by (simp add: strip_lines_def l_def)
  then show ?thesis using join_nl_Cons_hd [OF st(1)] st(2) by simp
qed

lemma lstrip_append_nonblank: "\<not> blank x \<Longrightarrow> lstrip (x @ y) = lstrip x @ y"
  by (auto simp: lstrip_def blank_def dropWhile_append)

lemma rstrip_append_nonblank: "\<not> blank y \<Longrightarrow> rstrip (x @ y) = x @ rstrip y"
  by (auto simp: rstrip_def blank_def dropWhile_append)

lemma nonblank_ends: "x \<noteq> [] \<Longrightarrow> \<not> isspace (last x) \<Longrightarrow> \<not> blank x"
  by (auto simp: blank_def)

lemma nonblank_begins: "x \<noteq> [] \<Longrightarrow> \<not> isspace (hd x) \<Longrightarrow> \<not> blank x"
  by (auto simp: blank_def)

lemma lstrip_keeps_last:
  "\<not> blank x \<Longrightarrow> lstrip x \<noteq> [] \<and> last (lstrip x) = last x"
proof -
  assume nb: "\<not> blank x"
  then have ne: "lstrip x \<noteq> []" by (simp add: lstrip_blank)
  obtain w where "x = w @ lstrip x" using lstrip_suffix by blast
  then have "last x = last (w @ lstrip x)" by simp
  then show ?thesis using ne by simp
qed

lemma strip_join_two:
  assumes "x \<noteq> []" "\<not> isspace (last x)" "y \<noteq> []" "\<not> isspace (hd y)"
  shows "strip (x @ NL # NL # y) = strip x @ NL # NL # strip y"
proof -
  have nbx: "\<not> blank x" using assms(1,2) by (rule nonblank_ends)
  have nby: "\<not> blank y" using assms(3,4) by (rule nonblank_begins)
  have lx: "lstrip x \<noteq> []" "last (lstrip x) = last x"
    using lstrip_keeps_last [OF nbx] by simp_all
  have sx: "strip x = lstrip x"
    using lx assms(2) by (simp add: strip_def rstrip_id)
  have sy: "strip y = rstrip y"
    using assms(3,4) by (simp add: strip_def lstrip_id)
  have "lstrip (x @ NL # NL # y) = lstrip x @ NL # NL # y"
    using nbx by (rule lstrip_append_nonblank)
  moreover have "rstrip ((lstrip x @ [NL, NL]) @ y) = (lstrip x @ [NL, NL]) @ rstrip y"
    using nby by (rule rstrip_append_nonblank)
  ultimately show ?thesis using sx sy by (simp add: strip_def)
qed

lemma strip_keeps_ends:
  assumes "x \<noteq> []" "\<not> isspace (last x)"
  shows "strip x \<noteq> [] \<and> \<not> isspace (last (strip x))"
  using strip_nonblank [of x] nonblank_ends [OF assms] by simp

lemma strip_keeps_begin:
  assumes "y \<noteq> []" "\<not> isspace (hd y)"
  shows "strip y \<noteq> [] \<and> \<not> isspace (hd (strip y))"
  using strip_nonblank [of y] nonblank_begins [OF assms] by simp

lemma not_isspace_neq: "\<not> isspace c \<Longrightarrow> c \<noteq> SP \<and> c \<noteq> NL"
  using isspace_SP isspace_NL by auto

lemma norm2_ends:
  assumes "\<not> isspace c" "NL \<notin> set u2"
  shows "norm2 (u1 @ c # u2) = sub_newlines (sub_spaces u1) @ c # sub_spaces u2"
    and "NL \<notin> set (sub_spaces u2)"
proof -
  show n: "NL \<notin> set (sub_spaces u2)" using assms(2) set_sub_spaces by blast
  have "sub_newlines (sub_spaces u2 @ []) = sub_spaces u2 @ sub_newlines []"
    using n by (rule sub_newlines_no_NL)
  then show "norm2 (u1 @ c # u2) = sub_newlines (sub_spaces u1) @ c # sub_spaces u2"
    using not_isspace_neq [OF assms(1)]
    by (simp add: norm2_def sub_spaces_append_other sub_newlines_append_other)
qed

lemma norm2_begins:
  assumes "\<not> isspace d" "NL \<notin> set v1"
  shows "norm2 (v1 @ d # v2) = sub_spaces v1 @ d # sub_newlines (sub_spaces v2)"
    and "NL \<notin> set (sub_spaces v1)"
proof -
  show n: "NL \<notin> set (sub_spaces v1)" using assms(2) set_sub_spaces by blast
  have "sub_newlines (sub_spaces v1 @ []) = sub_spaces v1 @ sub_newlines []"
    using n by (rule sub_newlines_no_NL)
  then show "norm2 (v1 @ d # v2) = sub_spaces v1 @ d # sub_newlines (sub_spaces v2)"
    using not_isspace_neq [OF assms(1)]
    by (simp add: norm2_def sub_spaces_append_other sub_newlines_append_other)
qed

lemma norm2_run:
  assumes k: "3 \<le> k"
    and c: "\<not> isspace c" "NL \<notin> set u2"
    and d: "\<not> isspace d" "NL \<notin> set v1"
  shows "norm2 ((u1 @ c # u2) @ replicate k NL @ (v1 @ d # v2)) =
      norm2 (u1 @ c # u2) @ NL # NL # norm2 (v1 @ d # v2)"
proof -
  define B where "B = sub_spaces (v1 @ d # v2)"
  have Beq: "B = sub_spaces v1 @ d # sub_spaces v2"
    using not_isspace_neq [OF d(1)] by (simp add: B_def sub_spaces_append_other)
  have n1: "NL \<notin> set (sub_spaces v1)" using d(2) set_sub_spaces by blast
  have hdB: "B = [] \<or> hd B \<noteq> NL"
  proof (cases "sub_spaces v1")
    case Nil
    then show ?thesis using Beq not_isspace_neq [OF d(1)] by simp
  next
    case (Cons x xs)
    then show ?thesis using Beq n1 by auto
  qed
  have n2: "NL \<notin> set (sub_spaces u2)" using c(2) set_sub_spaces by blast
  have "sub_spaces ((u1 @ c # u2) @ replicate k NL @ (v1 @ d # v2)) =
      sub_spaces u1 @ c # sub_spaces (u2 @ replicate k NL @ (v1 @ d # v2))"
    using not_isspace_neq [OF c(1)] by (simp add: sub_spaces_append_other)
  also have "u2 @ replicate k NL @ (v1 @ d # v2) =
      u2 @ NL # (replicate (k - 1) NL @ (v1 @ d # v2))"
    using k by (cases k) simp_all
  also have "sub_spaces \<dots> = sub_spaces u2 @ NL # replicate (k - 1) NL @ B"
    using NL_neq_SP by (simp add: sub_spaces_append_other sub_spaces_replicate_NL B_def)
  also have "sub_spaces u2 @ NL # replicate (k - 1) NL @ B = sub_spaces u2 @ replicate k NL @ B"
    using k by (cases k) simp_all
  finally have ss: "sub_spaces ((u1 @ c # u2) @ replicate k NL @ (v1 @ d # v2)) =
      sub_spaces u1 @ c # (sub_spaces u2 @ replicate k NL @ B)" .
  have "sub_newlines (sub_spaces u1 @ c # (sub_spaces u2 @ replicate k NL @ B)) =
      sub_newlines (sub_spaces u1) @ c # sub_newlines (sub_spaces u2 @ replicate k NL @ B)"
    using not_isspace_neq [OF c(1)] by (simp add: sub_newlines_append_other)
  also have "sub_newlines (sub_spaces u2 @ replicate k NL @ B) =
      sub_spaces u2 @ sub_newlines (replicate k NL @ B)"
    using n2 by (rule sub_newlines_no_NL)
  also have "sub_newlines (replicate k NL @ B) = NL # NL # sub_newlines B"
    using k hdB by (rule sub_newlines_run)
  finally have "norm2 ((u1 @ c # u2) @ replicate k NL @ (v1 @ d # v2)) =
      sub_newlines (sub_spaces u1) @ c # sub_spaces u2 @ NL # NL # sub_newlines B"
    using ss by (simp add: norm2_def)
  then show ?thesis
    using norm2_ends(1) [OF c] by (simp add: B_def norm2_def)
qed

lemma clean_text_norm2: "clean_text s = strip (strip_lines (norm2 s))"
  by (simp add: clean_text_alt norm2_def)

lemma clean_text_run_decomp:
  assumes k: "3 \<le> k"
    and c: "\<not> isspace c" "NL \<notin> set u2"
    and d: "\<not> isspace d" "NL \<notin> set v1"
  shows "clean_text ((u1 @ c # u2) @ replicate k NL @ (v1 @ d # v2)) =
      clean_text (u1 @ c # u2) @ NL # NL # clean_text (v1 @ d # v2)"
    and "clean_text (u1 @ c # u2) \<noteq> [] \<and> \<not> isspace (last (clean_text (u1 @ c # u2)))"
    and "clean_text (v1 @ d # v2) \<noteq> [] \<and> \<not> isspace (hd (clean_text (v1 @ d # v2)))"
proof -
  define x where "x = strip_lines (norm2 (u1 @ c # u2))"
  define y where "y = strip_lines (norm2 (v1 @ d # v2))"
  have x: "x \<noteq> []" "\<not> isspace (last x)"
    using strip_lines_ends [OF c(1) norm2_ends(2) [OF c], of "sub_newlines (sub_spaces u1)"]
    by (simp_all add: x_def norm2_ends(1) [OF c])
  have y: "y \<noteq> []" "\<not> isspace (hd y)"
    using strip_lines_begins [OF d(1) norm2_begins(2) [OF d],
        of "sub_newlines (sub_spaces v2)"]
    by (simp_all add: y_def norm2_begins(1) [OF d])
  have "norm2 ((u1 @ c # u2) @ replicate k NL @ (v1 @ d # v2)) =
      norm2 (u1 @ c # u2) @ NL # NL # norm2 (v1 @ d # v2)"
    using k c d by (rule norm2_run)
  then have "strip_lines (norm2 ((u1 @ c # u2) @ replicate k NL @ (v1 @ d # v2))) =
      x @ NL # NL # y"
    by (simp only: strip_lines_append_NL strip_lines_NL x_def y_def)
  then show "clean_text ((u1 @ c # u2) @ replicate k NL @ (v1 @ d # v2)) =
      clean_text (u1 @ c # u2) @ NL # NL # clean_text (v1 @ d # v2)"
    using strip_join_two [OF x y] by (simp add: clean_text_norm2 x_def y_def)
  show "clean_text (u1 @ c # u2) \<noteq> [] \<and> \<not> isspace (last (clean_text (u1 @ c # u2)))"
    using strip_keeps_ends [OF x] by (simp add: clean_text_norm2 x_def)
  show "clean_text (v1 @ d # v2) \<noteq> [] \<and> \<not> isspace (hd (clean_text (v1 @ d # v2)))"
    using strip_keeps_begin [OF y] by (simp add: clean_text_norm2 y_def)
qed

subsection \<open>Normalised text that is normalised again\<close>

lemma sub_spaces_id: "\<not> two_spaces s \<Longrightarrow> sub_spaces s = s"
proof (induction s rule: sub_spaces.induct)
  case 1
  then show ?case by simp
next
  case (2 c cs)
  have t: "\<not> two_spaces cs" using "2.prems" by (simp add: two_spaces_Cons)
  show ?case
  proof (cases "c = SP")
    case False
    then show ?thesis using 2 t by simp
  next
    case True
    then have "cs = [] \<or> hd cs \<noteq> SP" using "2.prems" by (auto simp: two_spaces_Cons)
    then have "dropWhile (\<lambda>d. d = SP) cs = cs" by (cases cs) auto
    then show ?thesis using 2 t True by simp
  qed
qed

lemma sub_newlines_id:
  assumes "\<not> (\<exists>a b. s = a @ [NL, NL, NL] @ b)"
  shows "sub_newlines s = s"
  using assms
proof (induction s rule: sub_newlines.induct)
  case 1
  then show ?case by simp
next
  case (2 c cs)
  let ?run = "takeWhile (\<lambda>d. d = NL) (c # cs)"
  have short: "\<not> 3 \<le> length ?run"
  proof
    assume l: "3 \<le> length ?run"
    define run where "run = ?run"
    define rest where "rest = dropWhile (\<lambda>d. d = NL) (c # cs)"
    define k where "k = length run - 3"
    have len: "length run = Suc (Suc (Suc k))" using l by (simp add: k_def run_def)
    have "\<forall>x\<in>set run. x = NL" unfolding run_def by (auto dest: set_takeWhileD)
    then have "replicate (length run) NL = run" by (rule replicate_length_same)
    then have r: "run = [NL, NL, NL] @ replicate k NL" using len by simp
    have "run @ rest = c # cs"
      unfolding run_def rest_def by (rule takeWhile_dropWhile_id)
    then have "c # cs = [] @ [NL, NL, NL] @ (replicate k NL @ rest)"
      using r by simp
    then show False using "2.prems" by blast
  qed
  have "\<not> (\<exists>a b. cs = a @ [NL, NL, NL] @ b)"
  proof
    assume "\<exists>a b. cs = a @ [NL, NL, NL] @ b"
    then obtain a b where "cs = a @ [NL, NL, NL] @ b" by blast
    then have "c # cs = (c # a) @ [NL, NL, NL] @ b" by simp
    then show False using "2.prems" by blast
  qed
  then have "sub_newlines cs = cs" using "2.IH"(2) short by simp
  then show ?case using short by simp
qed

lemma strip_trimmed: "trimmed l \<Longrightarrow> strip l = l"
proof (cases "l = []")
  case True
  then show ?thesis by (simp add: strip_Nil)
next
  case False
  assume "trimmed l"
  then have "\<not> isspace (hd l)" "\<not> isspace (last l)" using False by (simp_all add: trimmed_def)
  then show ?thesis using False by (simp add: strip_def lstrip_id rstrip_id)
qed

lemma strip_lines_trimmed:
  assumes "\<forall>l\<in>set (split_nl t). trimmed l"
  shows "strip_lines t = t"
proof -
  have "map strip (split_nl t) = split_nl t"
    using assms by (simp add: map_idI strip_trimmed)
  then show ?thesis by (simp add: strip_lines_def join_split_nl)
qed

lemma strip_strip: "strip (strip s) = strip s"
  using trimmed_strip by (rule strip_trimmed)

lemma clean_text_lines_all_trimmed: "\<forall>l\<in>set (split_nl (clean_text s)). trimmed l"
proof -
  define t where "t = strip_lines (sub_newlines (sub_spaces s))"
  have "\<forall>l\<in>set (split_nl t). trimmed l"
    by (simp add: t_def lines_strip_lines trimmed_strip)
  then have "\<forall>l\<in>set (split_nl (lstrip t)). trimmed l" by (rule lines_lstrip)
  then have "\<forall>l\<in>set (split_nl (rstrip (lstrip t))). trimmed l" by (rule lines_rstrip)
  then show ?thesis by (simp add: clean_text_alt t_def strip_def)
qed

lemma clean_text_idempotent_without_triple:
  assumes "\<not> (\<exists>a b. clean_text s = a @ [NL, NL, NL] @ b)"
  shows "clean_text (clean_text s) = clean_text s"
proof -
  define t where "t = clean_text s"
  have 1: "sub_spaces t = t"
    using no_two_spaces_clean_text [of s] by (simp add: t_def sub_spaces_id)
  have 2: "sub_newlines t = t" using assms by (simp add: t_def sub_newlines_id)
  have 3: "strip_lines t = t"
    using clean_text_lines_all_trimmed [of s] by (simp add: t_def strip_lines_trimmed)
  have 4: "strip t = t" by (simp add: t_def clean_text_alt strip_strip)
  show ?thesis using 1 2 3 4 by (simp add: clean_text_alt [of t] t_def [symmetric])
qed

subsection \<open>Events of a computation\<close>

lemma all_events_ret: "all_events P (ret x)"
  by (simp add: all_events_def ret_def)

lemma all_events_call: "all_events P (call r)"
  by (simp add: all_events_def call_def)

lemma print_line_ok: "console w m = Inr () \<Longrightarrow> print_line w m = ([Print m], Inr ())"
  by (simp add: print_line_def)

lemma print_line_fail: "console w m = Inl e \<Longrightarrow> print_line w m = ([], Inl e)"
  by (simp add: print_line_def)

lemma all_events_print: "P (Print m) \<Longrightarrow> all_events P (print_line w m)"
  by (simp add: all_events_def print_line_def split: sum.splits)

lemma all_events_perform: "P e \<Longrightarrow> all_events P (perform e r)"
  by (simp add: all_events_def perform_def)

lemma all_events_then:
  "all_events P m \<Longrightarrow> (\<And>x. all_events P (f x)) \<Longrightarrow> all_events P (then_io m f)"
proof -
  assume a: "all_events P m" and b: "\<And>x. all_events P (f x)"
  obtain es r where m: "m = (es, r)" by (cases m)
  show ?thesis
  proof (cases r)
    case (Inl e)
    then show ?thesis using a m by (simp add: then_io_def all_events_def)
  next
    case (Inr x)
    obtain es' r' where fx: "f x = (es', r')" by (cases "f x")
    then show ?thesis
      using a b [of x] m Inr by (auto simp: then_io_def all_events_def)
  qed
qed

lemma all_events_try:
  "all_events P m \<Longrightarrow> (\<And>e. all_events P (h e)) \<Longrightarrow> all_events P (try_except m h)"
proof -
  assume a: "all_events P m" and b: "\<And>e. all_events P (h e)"
  obtain es r where m: "m = (es, r)" by (cases m)
  show ?thesis
  proof (cases r)
    case (Inr x)
    then show ?thesis using a m by (simp add: try_except_def all_events_def)
  next
    case (Inl e)
    obtain es' r' where he: "h e = (es', r')" by (cases "h e")
    then show ?thesis
      using a b [of e] m Inl by (auto simp: try_except_def all_events_def)
  qed
qed

lemma all_events_if:
  "(b \<Longrightarrow> all_events P m) \<Longrightarrow> (\<not> b \<Longrightarrow> all_events P n) \<Longrightarrow> all_events P (if b then m else n)"
  by simp

lemma all_events_let: "all_events P (f v) \<Longrightarrow> all_events P (Let v f)"
  by simp

lemmas all_events_intros =
  all_events_ret all_events_call all_events_print all_events_perform all_events_then
  all_events_try all_events_if all_events_let

lemma all_events_preprocess_image: "all_events P (preprocess_image w img)"
  unfolding preprocess_image_def by (intro all_events_intros)

subsection \<open>Events of the pipeline and of the batch\<close>

lemma all_events_mono:
  "all_events P m \<Longrightarrow> (\<And>e. P e \<Longrightarrow> Q e) \<Longrightarrow> all_events Q m"
  by (auto simp: all_events_def)

lemma ocr_events: "all_events (ocr_event sv) (ocr_documento_legal w p pre sv)"
  unfolding ocr_documento_legal_def custom_config_def
  by (intro all_events_intros all_events_preprocess_image) simp_all

lemma save_events: "all_events save_event (save_results w text p md)"
  unfolding save_results_def
  by (intro all_events_intros) simp_all

lemma ocr_event_fixed: "ocr_event sv e \<Longrightarrow> fixed_config e"
  by (cases "(sv, e)" rule: ocr_event.cases) simp_all

lemma save_event_fixed: "save_event e \<Longrightarrow> fixed_config e"
  by (cases e rule: save_event.cases) simp_all

lemma ocr_event_not_save: "ocr_event False e \<Longrightarrow> not_save_image e"
  by (cases "(False, e)" rule: ocr_event.cases) simp_all

lemma save_event_not_save: "save_event e \<Longrightarrow> not_save_image e"
  by (cases e rule: save_event.cases) simp_all





lemma all_events_try_body:
  assumes "\<And>e. ocr_event False e \<Longrightarrow> P e" "\<And>e. save_event e \<Longrightarrow> P e" "P (Print MsgBlank)"
  shows "all_events P (try_body w pre p)"
  unfolding try_body_def
  by (intro all_events_then all_events_print assms(3)
      all_events_mono [OF ocr_events assms(1)] all_events_mono [OF save_events assms(2)])

lemma all_events_batch_loop:
  assumes "\<And>e. ocr_event False e \<Longrightarrow> P e" "\<And>e. save_event e \<Longrightarrow> P e" "\<And>m. P (Print m)"
  shows "all_events P (batch_loop w pre n i ps)"
proof (induction ps arbitrary: i)
  case Nil
  then show ?case by (simp add: all_events_ret)
next
  case (Cons p ps)
  show ?case
    unfolding batch_loop.simps
    by (intro all_events_then all_events_try all_events_print assms(3) Cons
        all_events_try_body assms(1,2))
qed

lemma all_events_process_batch:
  assumes "\<And>e. ocr_event False e \<Longrightarrow> P e" "\<And>e. save_event e \<Longrightarrow> P e" "\<And>m. P (Print m)"
  shows "all_events P (process_batch w d pre)"
  unfolding process_batch_def Let_def
  by (intro all_events_if all_events_then all_events_print assms(3)
      all_events_batch_loop assms(1,2))

lemma fst_exit_status: "fst (exit_status m) = fst m"
  by (cases m) (auto simp: exit_status_def split: sum.splits)

lemma all_events_single:
  assumes "\<And>e. ocr_event sv e \<Longrightarrow> P e" "\<And>e. save_event e \<Longrightarrow> P e" "\<And>m. P (Print m)"
  shows "all_events P
     (then_io (ocr_documento_legal w path pre sv) (\<lambda>text.
      then_io (print_line w (MsgText text)) (\<lambda>_.
      then_io (print_line w MsgBlank) (\<lambda>_.
      save_results w text path True))))"
  by (intro all_events_then all_events_print assms(3)
      all_events_mono [OF ocr_events assms(1)] all_events_mono [OF save_events assms(2)])

lemma main_events:
  assumes "\<And>sv e. ocr_event sv e \<Longrightarrow> P e" "\<And>e. save_event e \<Longrightarrow> P e" "\<And>m. P (Print m)"
  shows "\<forall>e\<in>set (fst (main w argv)). P e"
proof -
  have b: "\<forall>e\<in>set (fst (process_batch w d pre)). P e" for d pre
    using all_events_process_batch [of P w d pre] assms by (simp add: all_events_def)
  have s: "\<forall>e\<in>set (fst (then_io (ocr_documento_legal w path pre sv) (\<lambda>text.
      then_io (print_line w (MsgText text)) (\<lambda>_.
      then_io (print_line w MsgBlank) (\<lambda>_.
      save_results w text path True))))). P e" for path pre sv
    using all_events_single [of sv P w path pre] assms by (simp add: all_events_def)
  have p: "\<forall>e\<in>set (fst (print_line w m)). P e" for m
    using all_events_print [of P m w] assms(3) by (simp add: all_events_def)
  show ?thesis
    unfolding main_def Let_def
    using b s p by (simp add: fst_exit_status)
qed

subsection \<open>Outcomes of the batch loop\<close>












lemma outcomes_print: "outcomes (fst (print_line w m)) = outcomes [Print m] \<or>
    outcomes (fst (print_line w m)) = []"
  by (simp add: print_line_def outcomes_def map_filter_def split: sum.splits)




subsection \<open>Runs in the example world\<close>

lemmas io_defs = then_io_def try_except_def print_line_def call_def perform_def ret_def Let_def

lemmas str_defs = clean_text_def strip_def lstrip_def rstrip_def isspace_def NL_def SP_def lit_def

lemma length_luma: "length (luma xs) = length xs div 3"
  by (induction xs rule: luma.induct) simp_all

lemma demo_contract: "pillow_contract demo_world"
  unfolding pillow_contract_def
proof (intro conjI allI impI)
  fix img out
  assume "image_convert demo_world (lit ''L'') img = Inr out"
  then show "greyscale_of img out"
    by (auto simp: demo_world_def demo_convert_def greyscale_of_def length_luma
        split: if_splits)
next
  fix img f
  assume "greyscale img"
  then show "\<exists>out. contrast_enhance demo_world img f = Inr out \<and> greyscale_of img out"
    by (simp add: demo_world_def demo_enhance_def greyscale_def greyscale_of_def Let_def)
next
  fix img
  assume "greyscale img"
  then show "\<exists>out. filter_sharpen demo_world img = Inr out \<and> greyscale_of img out"
    by (simp add: demo_world_def greyscale_def greyscale_of_def)
qed

lemma demo_fields:
  "path_name demo_world = (\<lambda>p. rev (takeWhile (\<lambda>c. c \<noteq> 47) (rev p)))"
  "path_stem demo_world =
     (\<lambda>p. takeWhile (\<lambda>c. c \<noteq> 46) (rev (takeWhile (\<lambda>c. c \<noteq> 47) (rev p))))"
  "path_str demo_world = (\<lambda>p. p)"
  "path_exists demo_world = (\<lambda>p. True)"
  "stat_size demo_world = (\<lambda>p. Inr 2048)"
  "mkdir demo_world = (\<lambda>p. Inr ())"
  "image_save demo_world = (\<lambda>img p. Inr ())"
  "image_to_string demo_world =
     (\<lambda>img l c. Inr (lit ''Hola   mundo'' @ [NL, NL, NL, NL] @ lit ''Adi'' @ [243, 115]))"
  "write_text demo_world = (\<lambda>p t. Inr ())"
  "strftime demo_world = (\<lambda>f. lit ''2024-01-01 00:00:00'')"
  "console demo_world = utf8_console"
  by (simp_all add: demo_world_def)

lemma full_disk_fields:
  "path_name full_disk_world = path_name demo_world"
  "path_stem full_disk_world = path_stem demo_world"
  "stat_size full_disk_world = stat_size demo_world"
  "mkdir full_disk_world = mkdir demo_world"
  "image_open full_disk_world = image_open demo_world"
  "image_to_string full_disk_world = image_to_string demo_world"
  "console full_disk_world = console demo_world"
  "image_save full_disk_world = (\<lambda>img p. Inl (Exception (lit ''No space left on device'')))"
  by (simp_all add: full_disk_world_def)

lemma demo_open_a: "image_open demo_world (lit ''input/a.png'') = Inr demo_image"
  by (simp add: demo_world_def lit_def)


lemma demo_convert_image: "image_convert demo_world (lit ''L'') demo_image = Inr demo_luma"
  by (simp add: demo_world_def demo_convert_def demo_image_def demo_luma_def lit_def)

lemma demo_enhance_image: "contrast_enhance demo_world demo_luma 2 = Inr demo_grey"
proof -
  have "(105::nat) div Suc (Suc 0) = 52" by (simp add: numeral_2_eq_2 [symmetric])
  then show ?thesis
    by (simp add: demo_world_def demo_enhance_def demo_grey_def demo_luma_def)
qed

lemma demo_sharpen: "filter_sharpen demo_world img = Inr img"
  by (simp add: demo_world_def)

lemma demo_preprocess: "preprocess_image demo_world demo_image = ([], Inr demo_grey)"
  by (simp add: preprocess_image_def demo_convert_image demo_enhance_image demo_sharpen
      then_io_def call_def)

lemma full_disk_preprocess: "preprocess_image full_disk_world demo_image = ([], Inr demo_grey)"
  using demo_preprocess by (simp add: preprocess_image_def full_disk_world_def)


lemmas console_defs = utf8_console_def encodable_def path_div_def output_dir_def



subsection \<open>Evaluation in the example world\<close>

lemma demo_mean: "(105::nat) div Suc (Suc 0) = 52"
  by (simp add: numeral_2_eq_2 [symmetric])

lemmas eval_defs = main_def exit_status_def process_batch_def find_images_def extensions_def
  try_body_def ocr_documento_legal_def save_results_def preprocess_image_def demo_world_def
  full_disk_world_def demo_convert_def demo_enhance_def demo_image_def demo_grey_def
  demo_luma_def lab_image_def raw_name_def utf8_console_def encodable_def path_div_def
  output_dir_def custom_config_def io_defs lit_def demo_mean

section \<open>The claims\<close>




text \<open>
  C2: \<open>clean_text\<close> applied twice differs from \<open>clean_text\<close>
  applied once on the text \<open>a\\n\\n \\nb\<close>: the lines are stripped after the
  runs of newlines are collapsed, so the line that held one space leaves three newlines
  in a row, which a second pass collapses to two.
\<close>

theorem clean_text_not_idempotent:
  "clean_text [97, NL, NL, SP, NL, 98] = [97, NL, NL, NL, 98] \<and>
   clean_text (clean_text [97, NL, NL, SP, NL, 98]) = [97, NL, NL, 98] \<and>
   clean_text (clean_text [97, NL, NL, SP, NL, 98]) \<noteq> clean_text [97, NL, NL, SP, NL, 98]"
  by (simp add: str_defs)

text \<open>
  C3: when the preprocessed image is to be saved and \<open>save\<close> raises,
  \<open>ocr_documento_legal\<close> ends with an exception and never calls the
  recognition engine; it ends with the exception of \<open>save\<close> when the three
  lines before the write were printed.
\<close>

theorem save_preprocessed_failure_propagates:
  assumes "image_open w p = Inr img"
    and "stat_size w p = Inr sz"
    and "snd (preprocess_image w img) = Inr img'"
    and "mkdir w output_dir = Inr ()"
    and "image_save w img' (path_div output_dir (path_stem w p @ lit ''_preprocessed.png'')) = Inl e"
  shows "isl (snd (ocr_documento_legal w p True True)) \<and>
     (\<forall>i l c. Recognize i l c \<notin> set (fst (ocr_documento_legal w p True True))) \<and>
     (console w (MsgProcessing (path_name w p)) = Inr () \<and>
      console w (MsgSize (img_width img) (img_height img) sz) = Inr () \<and>
      console w MsgPreprocessing = Inr () \<longrightarrow>
        snd (ocr_documento_legal w p True True) = Inl e)"
proof -
  have "fst (preprocess_image w img) = []"
    using all_events_preprocess_image [of "\<lambda>e. False" w img] by (simp add: all_events_def)
  then have "preprocess_image w img = ([], Inr img')"
    using assms(3) by (cases "preprocess_image w img") simp
  then show ?thesis
    using assms(1,2,4,5)
    by (simp add: ocr_documento_legal_def then_io_def print_line_def call_def perform_def
        ret_def Let_def split: sum.splits)
qed

text \<open>
  The hypotheses hold on the full disk.
\<close>

theorem save_preprocessed_failure_propagates_witness:
  "image_open full_disk_world (lit ''input/a.png'') = Inr demo_image \<and>
   stat_size full_disk_world (lit ''input/a.png'') = Inr 2048 \<and>
   snd (preprocess_image full_disk_world demo_image) = Inr demo_grey \<and>
   mkdir full_disk_world output_dir = Inr () \<and>
   console full_disk_world (MsgPreprocessing) = Inr () \<and>
   snd (ocr_documento_legal full_disk_world (lit ''input/a.png'') True True) =
     Inl (Exception (lit ''No space left on device'')) \<and>
   Recognize demo_grey (lit ''spa+eng'') (lit ''--oem 3 --psm 6'')
     \<notin> set (fst (ocr_documento_legal full_disk_world (lit ''input/a.png'') True True))"
proof -
  have h1: "image_open full_disk_world (lit ''input/a.png'') = Inr demo_image"
    by (simp add: full_disk_fields demo_open_a)
  have h2: "stat_size full_disk_world (lit ''input/a.png'') = Inr 2048"
    by (simp add: full_disk_fields demo_fields)
  have h3: "snd (preprocess_image full_disk_world demo_image) = Inr demo_grey"
    by (simp add: full_disk_preprocess)
  have h4: "mkdir full_disk_world output_dir = Inr ()"
    by (simp add: full_disk_fields demo_fields)
  have h5: "image_save full_disk_world demo_grey
      (path_div output_dir (path_stem full_disk_world (lit ''input/a.png'') @
         lit ''_preprocessed.png'')) = Inl (Exception (lit ''No space left on device''))"
    by (simp add: full_disk_fields)
  have h6: "console full_disk_world (MsgProcessing (path_name full_disk_world (lit ''input/a.png''))) = Inr () \<and>
      console full_disk_world (MsgSize (img_width demo_image) (img_height demo_image) 2048) = Inr () \<and>
      console full_disk_world MsgPreprocessing = Inr ()"
    by (simp add: full_disk_fields demo_fields console_defs lit_def)
  show ?thesis
    using save_preprocessed_failure_propagates [OF h1 h2 h3 h4 h5] h1 h2 h3 h4 h6 by simp
qed

text \<open>
  On the full disk the single-document pipeline, asked to save the preprocessed image,
  returns no text: it ends with the exception of \<open>save\<close>.
\<close>

theorem save_preprocessed_failure_counterexample:
  "snd (ocr_documento_legal full_disk_world (lit ''input/a.png'') True True) =
     Inl (Exception (lit ''No space left on device''))"
  by (simp add: eval_defs)

text \<open>
  C4: the output of \<open>clean_text\<close> never has two adjacent spaces; and a run
  of three or more newlines between a line that is not blank and a line that is not
  blank becomes exactly two newlines between the normalised text before it and the
  normalised text after it, neither of which brings a newline of its own to that place.
\<close>

theorem clean_text_whitespace_collapse:
  "(\<not> (\<exists>a b. clean_text s = a @ [SP, SP] @ b)) \<and>
   (3 \<le> k \<and> \<not> blank (last (split_nl u)) \<and> \<not> blank (hd (split_nl v)) \<longrightarrow>
      clean_text (u @ replicate k NL @ v) = clean_text u @ [NL, NL] @ clean_text v \<and>
      clean_text u \<noteq> [] \<and> last (clean_text u) \<noteq> NL \<and>
      clean_text v \<noteq> [] \<and> hd (clean_text v) \<noteq> NL)"
proof (intro conjI impI)
  show "\<not> (\<exists>a b. clean_text s = a @ [SP, SP] @ b)"
    using no_two_spaces_clean_text [of s] unfolding two_spaces_iff .
next
  assume h: "3 \<le> k \<and> \<not> blank (last (split_nl u)) \<and> \<not> blank (hd (split_nl v))"
  obtain u1 c u2 where u: "u = u1 @ c # u2" "\<not> isspace c" "NL \<notin> set u2"
    using last_line_nonblank [of u] h by blast
  obtain v1 d v2 where v: "v = v1 @ d # v2" "\<not> isspace d" "NL \<notin> set v1"
    using first_line_nonblank [of v] h by blast
  have k: "3 \<le> k" using h by simp
  note r = clean_text_run_decomp [OF k u(2,3) v(2,3)]
  show "clean_text (u @ replicate k NL @ v) = clean_text u @ [NL, NL] @ clean_text v"
    using r(1) u(1) v(1) by simp
  show "clean_text u \<noteq> []" using r(2) u(1) by simp
  show "last (clean_text u) \<noteq> NL" using r(2) [of u1] u(1) isspace_NL by metis
  show "clean_text v \<noteq> []" using r(3) v(1) by simp
  show "hd (clean_text v) \<noteq> NL" using r(3) [of v2] v(1) isspace_NL by metis
qed

text \<open>
  Four newlines between \<open>a\<close> followed by a space and \<open>b\<close>
  preceded by one.
\<close>

theorem clean_text_whitespace_collapse_witness:
  "3 \<le> (4::nat) \<and> \<not> blank (last (split_nl [97, SP])) \<and> \<not> blank (hd (split_nl [SP, 98])) \<and>
   clean_text ([97, SP] @ replicate 4 NL @ [SP, 98]) = [97, NL, NL, 98] \<and>
   \<not> (\<exists>a b. clean_text [97, SP, SP, 98] = a @ [SP, SP] @ b)"
proof -
  have h: "3 \<le> (4::nat) \<and> \<not> blank (last (split_nl [97, SP])) \<and>
      \<not> blank (hd (split_nl [SP, 98]))"
    by (simp add: blank_def isspace_def NL_def SP_def)
  have u: "clean_text [97, SP] = [97]" by (simp add: str_defs)
  have v: "clean_text [SP, 98] = [98]" by (simp add: str_defs)
  show ?thesis
    using clean_text_whitespace_collapse [of "[97, SP, SP, 98]" 4 "[97, SP]" "[SP, 98]"] h u v
    by simp
qed

text \<open>
  A run of three newlines at the start of the text leaves no newline at all: the last
  step strips the whole text.
\<close>

theorem clean_text_leading_run_counterexample:
  "clean_text (replicate 3 NL @ [97]) = [97] \<and> NL \<notin> set (clean_text (replicate 3 NL @ [97]))"
  by (simp add: str_defs numeral_3_eq_3)

text \<open>
  C5: every line of the output of \<open>clean_text\<close> is empty or begins and ends
  with a code point that is not whitespace.
\<close>

theorem clean_text_lines_trimmed:
  "\<forall>l\<in>set (split_nl (clean_text s)). l = [] \<or> (\<not> isspace (hd l) \<and> \<not> isspace (last l))"
  using clean_text_lines_all_trimmed [of s] by (simp add: trimmed_def)

text \<open>
  A text of two lines with spaces and a tab around the letters.
\<close>

theorem clean_text_lines_trimmed_witness:
  "[97] \<in> set (split_nl (clean_text [SP, 97, SP, NL, 9, 98, SP])) \<and>
   \<not> isspace (hd [97]) \<and> \<not> isspace (last [97])"
proof -
  have m: "[97] \<in> set (split_nl (clean_text [SP, 97, SP, NL, 9, 98, SP]))"
    by (simp add: str_defs)
  show ?thesis
    using clean_text_lines_trimmed [of "[SP, 97, SP, NL, 9, 98, SP]"] m by blast
qed

text \<open>
  C6: for a library that keeps the contract above and a raster of width and height at
  least 1: when \<open>convert('L')\<close> accepts the raster,
  \<open>preprocess_image\<close> raises nothing and returns what
  \<open>filter(SHARPEN)\<close> makes of \<open>Contrast.enhance(2.0)\<close> of the
  converted raster, a raster of mode \<open>L\<close> with one sample per pixel and the
  width and height of the input; when \<open>convert('L')\<close> refuses the raster,
  \<open>preprocess_image\<close> raises that exception.
\<close>

theorem preprocess_image_greyscale_same_size:
  assumes "pillow_contract w" and "1 \<le> img_width img" and "1 \<le> img_height img"
  shows "(\<forall>a. image_convert w (lit ''L'') img = Inr a \<longrightarrow>
       (\<exists>b out. contrast_enhance w a 2 = Inr b \<and> filter_sharpen w b = Inr out \<and>
          preprocess_image w img = ([], Inr out) \<and> img_mode out = lit ''L'' \<and>
          img_width out = img_width img \<and> img_height out = img_height img \<and>
          length (img_data out) = img_width img * img_height img)) \<and>
     (\<forall>e. image_convert w (lit ''L'') img = Inl e \<longrightarrow> preprocess_image w img = ([], Inl e))"
proof (intro conjI allI impI)
  fix a
  assume cv: "image_convert w (lit ''L'') img = Inr a"
  then have ga: "greyscale_of img a" using assms(1) unfolding pillow_contract_def by blast
  then have "greyscale a" using assms(2,3) by (simp add: greyscale_def greyscale_of_def)
  then obtain b where b: "contrast_enhance w a 2 = Inr b" "greyscale_of a b"
    using assms(1) unfolding pillow_contract_def by blast
  then have "greyscale b" using ga assms(2,3) by (simp add: greyscale_def greyscale_of_def)
  then obtain c where c: "filter_sharpen w b = Inr c" "greyscale_of b c"
    using assms(1) unfolding pillow_contract_def by blast
  have "preprocess_image w img = ([], Inr c)"
    using cv b(1) c(1) by (simp add: preprocess_image_def then_io_def call_def)
  then show "\<exists>b out. contrast_enhance w a 2 = Inr b \<and> filter_sharpen w b = Inr out \<and>
          preprocess_image w img = ([], Inr out) \<and> img_mode out = lit ''L'' \<and>
          img_width out = img_width img \<and> img_height out = img_height img \<and>
          length (img_data out) = img_width img * img_height img"
    using ga b c by (auto simp: greyscale_of_def)
next
  fix e
  assume "image_convert w (lit ''L'') img = Inl e"
  then show "preprocess_image w img = ([], Inl e)"
    by (simp add: preprocess_image_def then_io_def call_def)
qed

text \<open>
  The library of the example world keeps the contract, and converts the example image.
\<close>

theorem preprocess_image_greyscale_same_size_witness:
  "pillow_contract demo_world \<and> 1 \<le> img_width demo_image \<and> 1 \<le> img_height demo_image \<and>
   image_convert demo_world (lit ''L'') demo_image = Inr demo_luma \<and>
   (\<exists>out. preprocess_image demo_world demo_image = ([], Inr out) \<and> img_mode out = lit ''L'' \<and>
      img_width out = 2 \<and> img_height out = 1 \<and> length (img_data out) = 2)"
proof -
  have h2: "1 \<le> img_width demo_image" by (simp add: demo_image_def)
  have h3: "1 \<le> img_height demo_image" by (simp add: demo_image_def)
  from preprocess_image_greyscale_same_size [OF demo_contract h2 h3] demo_convert_image
  obtain b out where "preprocess_image demo_world demo_image = ([], Inr out)"
    "img_mode out = lit ''L''" "img_width out = img_width demo_image"
    "img_height out = img_height demo_image"
    "length (img_data out) = img_width demo_image * img_height demo_image"
    by blast
  then have "\<exists>out. preprocess_image demo_world demo_image = ([], Inr out) \<and>
      img_mode out = lit ''L'' \<and> img_width out = 2 \<and> img_height out = 1 \<and>
      length (img_data out) = 2"
    by (auto simp: demo_image_def)
  then show ?thesis using demo_contract h2 h3 demo_convert_image by simp
qed

text \<open>
  A raster of one pixel in mode \<open>LAB\<close>: the conversion raises and no raster
  is returned.
\<close>

theorem preprocess_image_lab_counterexample:
  "1 \<le> img_width lab_image \<and> 1 \<le> img_height lab_image \<and>
   preprocess_image demo_world lab_image =
     ([], Inl (Exception (lit ''conversion from LAB to L not supported'')))"
  by (simp add: eval_defs)

text \<open>
  C7: when no pattern of the extension filter matches in the directory: if the message
  that no images were found can be printed, \<open>process_batch\<close> prints it,
  processes nothing and returns normally, and \<open>main\<close> on that directory ends
  with exit status 0; if printing it raises, that exception leaves
  \<open>process_batch\<close> and \<open>main\<close> ends with exit status 1.
\<close>

theorem empty_directory_advisory:
  assumes "\<forall>ext\<in>set extensions. path_glob w d ext = []"
  shows "(console w (MsgNoImages d) = Inr () \<longrightarrow>
       process_batch w d pre = ([Print (MsgNoImages d)], Inr ()) \<and>
       (2 \<le> length argv \<and> path_exists w (argv ! 1) \<and> path_is_dir w (argv ! 1) \<and>
        path_str w (argv ! 1) = d \<longrightarrow> main w argv = ([Print (MsgNoImages d)], 0))) \<and>
     (\<forall>e. console w (MsgNoImages d) = Inl e \<longrightarrow>
       process_batch w d pre = ([], Inl e) \<and>
       (2 \<le> length argv \<and> path_exists w (argv ! 1) \<and> path_is_dir w (argv ! 1) \<and>
        path_str w (argv ! 1) = d \<longrightarrow> main w argv = ([], 1)))"
proof -
  have "find_images w d = []" using assms by (simp add: find_images_def)
  then have pb: "process_batch w d pre = print_line w (MsgNoImages d)" for pre
    by (simp add: process_batch_def)
  show ?thesis
    by (auto simp: pb main_def Let_def exit_status_def print_line_ok print_line_fail)
qed

text \<open>
  The empty directory of the example world.
\<close>

theorem empty_directory_advisory_witness:
  "find_images demo_world (lit ''empty'') = [] \<and>
   console demo_world (MsgNoImages (lit ''empty'')) = Inr () \<and>
   process_batch demo_world (lit ''empty'') True = ([Print (MsgNoImages (lit ''empty''))], Inr ()) \<and>
   main demo_world [lit ''ocr_legal.py'', lit ''empty''] =
     ([Print (MsgNoImages (lit ''empty''))], 0)"
proof -
  have h: "\<forall>ext\<in>set extensions. path_glob demo_world (lit ''empty'') ext = []"
    by (simp add: extensions_def demo_world_def lit_def)
  have c: "console demo_world (MsgNoImages (lit ''empty'')) = Inr ()"
    by (simp add: demo_fields console_defs lit_def)
  have a: "2 \<le> length [lit ''ocr_legal.py'', lit ''empty''] \<and>
      path_exists demo_world ([lit ''ocr_legal.py'', lit ''empty''] ! 1) \<and>
      path_is_dir demo_world ([lit ''ocr_legal.py'', lit ''empty''] ! 1) \<and>
      path_str demo_world ([lit ''ocr_legal.py'', lit ''empty''] ! 1) = lit ''empty''"
    by (simp add: demo_world_def)
  show ?thesis
    using empty_directory_advisory [OF h, of True "[lit ''ocr_legal.py'', lit ''empty'']"] h c a
    by (simp add: find_images_def)
qed

text \<open>
  An empty directory whose name the console cannot encode: nothing is printed and the
  exit status is 1.
\<close>

theorem empty_directory_unencodable_counterexample:
  "find_images demo_world [56575] = [] \<and>
   path_is_dir demo_world [56575] \<and>
   main demo_world [lit ''ocr_legal.py'', [56575]] = ([], 1)"
  by (simp add: eval_defs)

text \<open>
  C8: every call of the recognition engine, from \<open>ocr_documento_legal\<close>,
  from \<open>process_batch\<close> or from \<open>main\<close>, passes the language
  \<open>spa+eng\<close> and the configuration \<open>--oem 3 --psm 6\<close>.
\<close>

theorem recognition_config_fixed:
  "Recognize img l c \<in> set (fst (ocr_documento_legal w p pre sv)) \<or>
   Recognize img l c \<in> set (fst (process_batch w d pre')) \<or>
   Recognize img l c \<in> set (fst (main w argv)) \<Longrightarrow>
   l = lit ''spa+eng'' \<and> c = lit ''--oem 3 --psm 6''"
proof -
  assume h: "Recognize img l c \<in> set (fst (ocr_documento_legal w p pre sv)) \<or>
   Recognize img l c \<in> set (fst (process_batch w d pre')) \<or>
   Recognize img l c \<in> set (fst (main w argv))"
  have 1: "\<forall>e\<in>set (fst (ocr_documento_legal w p pre sv)). fixed_config e"
    using all_events_mono [OF ocr_events ocr_event_fixed] by (simp add: all_events_def)
  have 2: "\<forall>e\<in>set (fst (process_batch w d pre')). fixed_config e"
    using all_events_process_batch [of fixed_config w d pre']
      ocr_event_fixed save_event_fixed by (simp add: all_events_def)
  have 3: "\<forall>e\<in>set (fst (main w argv)). fixed_config e"
    by (rule main_events) (simp_all add: ocr_event_fixed save_event_fixed)
  from h 1 2 3 have "fixed_config (Recognize img l c)" by blast
  then show ?thesis by simp
qed

text \<open>
  The single-document run of the example world calls the engine.
\<close>

theorem recognition_config_fixed_witness:
  "Recognize demo_grey (lit ''spa+eng'') custom_config
     \<in> set (fst (main demo_world [lit ''ocr_legal.py'', lit ''input/a.png''])) \<and>
   custom_config = lit ''--oem 3 --psm 6''"
proof -
  have h: "Recognize demo_grey (lit ''spa+eng'') custom_config
     \<in> set (fst (main demo_world [lit ''ocr_legal.py'', lit ''input/a.png'']))"
    by (simp add: eval_defs)
  show ?thesis
    using recognition_config_fixed [OF disjI2 [OF disjI2 [OF h]]] h by simp
qed

text \<open>
  C9: \<open>process_batch\<close> never saves a preprocessed image, and neither does
  \<open>main\<close> on a directory, whatever the arguments, \<open>--save-prep\<close>
  included.
\<close>

theorem batch_never_saves_preprocessed:
  "SaveImage q img \<notin> set (fst (process_batch w d pre)) \<and>
   (2 \<le> length argv \<and> path_is_dir w (argv ! 1) \<longrightarrow>
      SaveImage q img \<notin> set (fst (main w argv)))"
proof (intro conjI impI)
  have b: "\<forall>e\<in>set (fst (process_batch w d pre)). not_save_image e" for d pre
    using all_events_process_batch [of not_save_image w d pre]
      ocr_event_not_save save_event_not_save by (simp add: all_events_def)
  then show "SaveImage q img \<notin> set (fst (process_batch w d pre))" by fastforce
  assume h: "2 \<le> length argv \<and> path_is_dir w (argv ! 1)"
  have p: "\<forall>e\<in>set (fst (print_line w m)). not_save_image e" for m
    using all_events_print [of not_save_image m w] by (simp add: all_events_def)
  have "\<forall>e\<in>set (fst (main w argv)). not_save_image e"
    using h b p by (simp add: main_def Let_def fst_exit_status)
  then show "SaveImage q img \<notin> set (fst (main w argv))"
    by fastforce
qed

text \<open>
  With \<open>--save-prep\<close>, the run on the directory saves no preprocessed image,
  while the run on the single file does.
\<close>

theorem batch_never_saves_preprocessed_witness:
  "2 \<le> length [lit ''ocr_legal.py'', lit ''input'', lit ''--save-prep''] \<and>
   path_is_dir demo_world ([lit ''ocr_legal.py'', lit ''input'', lit ''--save-prep''] ! 1) \<and>
   lit ''--save-prep'' \<in> set [lit ''ocr_legal.py'', lit ''input'', lit ''--save-prep''] \<and>
   SaveImage (lit ''output/a_preprocessed.png'') demo_grey
     \<notin> set (fst (main demo_world [lit ''ocr_legal.py'', lit ''input'', lit ''--save-prep''])) \<and>
   SaveImage (lit ''output/a_preprocessed.png'') demo_grey
     \<in> set (fst (main demo_world [lit ''ocr_legal.py'', lit ''input/a.png'', lit ''--save-prep'']))"
proof -
  have h: "2 \<le> length [lit ''ocr_legal.py'', lit ''input'', lit ''--save-prep''] \<and>
      path_is_dir demo_world ([lit ''ocr_legal.py'', lit ''input'', lit ''--save-prep''] ! 1)"
    by (simp add: demo_world_def)
  have s: "SaveImage (lit ''output/a_preprocessed.png'') demo_grey
     \<in> set (fst (main demo_world [lit ''ocr_legal.py'', lit ''input/a.png'', lit ''--save-prep'']))"
    by (simp add: eval_defs)
  show ?thesis
    using batch_never_saves_preprocessed
      [of "lit ''output/a_preprocessed.png''" demo_grey
        demo_world _ _ "[lit ''ocr_legal.py'', lit ''input'', lit ''--save-prep'']"] h s
    by simp
qed



end
